theory Spec2Isabelle
  imports Main
begin

section \<open>Python values\<close>

text \<open>
  The values the protocol handles are Python's \<open>None\<close> and unbounded integers
  (counters, version numbers, column values). \<open>truthy\<close> is Python's truth test:
  \<open>None\<close> and \<open>0\<close> are false, every other integer (negative ones too) is true.
\<close>

datatype pyval = PNone | PInt int

fun truthy :: "pyval \<Rightarrow> bool" where
  "truthy PNone = False"
| "truthy (PInt n) = (n \<noteq> 0)"

section \<open>The locking scope controller: class \<open>optimisticLocking\<close>\<close>

text \<open>
  The counter \<open>_optimisticLocking\<close> is an attribute that exists only once it has been
  assigned, on one of three objects: the thread-local \<open>current_state\<close>, the record type
  (a class attribute) or the record instance. \<open>None\<close> below means the attribute is not
  set on that object. A read on the instance that finds no attribute of its own falls
  through to the class attribute, as Python's attribute lookup does.
\<close>

record scopes =
  current_state :: "int option"
  type_attr :: "int option"
  inst_attr :: "int option"

text \<open>The \<open>model\<close> argument of \<open>optimisticLocking(model)\<close> and of \<open>active(model)\<close>.\<close>

datatype modelref = TypeObj | InstObj

text \<open>The object holding the counter: \<open>self.model or self.current_state\<close>.\<close>

datatype state_obj = ThreadLocal | OnModel modelref

fun stateObj :: "modelref option \<Rightarrow> state_obj" where
  "stateObj None = ThreadLocal"
| "stateObj (Some m) = OnModel m"

text \<open>\<open>getattr(obj, '_optimisticLocking', d)\<close>\<close>

fun getattr_ol :: "scopes \<Rightarrow> state_obj \<Rightarrow> int \<Rightarrow> int" where
  "getattr_ol s ThreadLocal d = (case current_state s of Some n \<Rightarrow> n | None \<Rightarrow> d)"
| "getattr_ol s (OnModel TypeObj) d = (case type_attr s of Some n \<Rightarrow> n | None \<Rightarrow> d)"
| "getattr_ol s (OnModel InstObj) d =
     (case inst_attr s of Some n \<Rightarrow> n
      | None \<Rightarrow> (case type_attr s of Some n \<Rightarrow> n | None \<Rightarrow> d))"

text \<open>\<open>obj._optimisticLocking = n\<close>\<close>

fun setattr_ol :: "scopes \<Rightarrow> state_obj \<Rightarrow> int \<Rightarrow> scopes" where
  "setattr_ol s ThreadLocal n = s\<lparr>current_state := Some n\<rparr>"
| "setattr_ol s (OnModel TypeObj) n = s\<lparr>type_attr := Some n\<rparr>"
| "setattr_ol s (OnModel InstObj) n = s\<lparr>inst_attr := Some n\<rparr>"

definition enter :: "modelref option \<Rightarrow> scopes \<Rightarrow> scopes" where
  "enter model s =
     (let obj = stateObj model in setattr_ol s obj (getattr_ol s obj 0 + 1))"

definition exit :: "modelref option \<Rightarrow> scopes \<Rightarrow> scopes" where
  "exit model s =
     (let obj = stateObj model in setattr_ol s obj (getattr_ol s obj 1 - 1))"

text \<open>
  \<open>active\<close> returns the value of
  \<open>getattr(current_state, ..., 0) or (model and getattr(model, ..., 0))\<close>:
  the first operand when it is truthy, else \<open>None\<close> when no model is given, else the
  model's counter (a model object is itself truthy).
\<close>

definition active :: "scopes \<Rightarrow> modelref option \<Rightarrow> pyval" where
  "active s model =
     (let a = PInt (getattr_ol s ThreadLocal 0) in
      if truthy a then a
      else (case model of None \<Rightarrow> PNone
            | Some m \<Rightarrow> PInt (getattr_ol s (OnModel m) 0)))"

text \<open>The decorator form: every call of the wrapped function is bracketed.\<close>

definition call :: "modelref option \<Rightarrow> (scopes \<Rightarrow> 'a \<times> scopes) \<Rightarrow> scopes \<Rightarrow> 'a \<times> scopes" where
  "call model func s = (let (r, s') = func (enter model s) in (r, exit model s'))"

text \<open>A state in which no counter is set or every counter that is set is zero.\<close>

definition quiet :: "scopes \<Rightarrow> bool" where
  "quiet s = (current_state s \<in> {None, Some 0} \<and> type_attr s \<in> {None, Some 0}
              \<and> inst_attr s \<in> {None, Some 0})"

section \<open>Fields and record instances\<close>

text \<open>
  A model field: its attribute name, whether it is an instance of \<open>VersionField\<close>,
  the model class that declares it (\<open>field.model\<close>) and its \<open>default\<close>.
\<close>

record field =
  attname :: string
  is_version :: bool
  fmodel :: string
  fdefault :: pyval

text \<open>\<open>kwargs.setdefault(k, v)\<close>: the entry is added only when the key is absent.\<close>

definition setdefault :: "(string \<rightharpoonup> pyval) \<Rightarrow> string \<Rightarrow> pyval \<Rightarrow> (string \<rightharpoonup> pyval)" where
  "setdefault kwargs k v = (case kwargs k of None \<Rightarrow> kwargs(k \<mapsto> v) | Some _ \<Rightarrow> kwargs)"

text \<open>
  \<open>VersionField.__init__\<close>: the keyword arguments handed on to the integer field's
  constructor, which stores \<open>kwargs['default']\<close> as the field's default.
\<close>

definition VersionField_init :: "(string \<rightharpoonup> pyval) \<Rightarrow> (string \<rightharpoonup> pyval)" where
  "VersionField_init kwargs = setdefault kwargs ''default'' (PInt 0)"

definition VersionField :: "string \<Rightarrow> string \<Rightarrow> (string \<rightharpoonup> pyval) \<Rightarrow> field" where
  "VersionField name mdl kwargs =
     \<lparr>attname = name, is_version = True, fmodel = mdl,
      fdefault = (case VersionField_init kwargs ''default'' of Some d \<Rightarrow> d | None \<Rightarrow> PNone)\<rparr>"

text \<open>
  A record instance: its primary key, its attribute values, the attribute names that
  \<open>get_deferred_fields()\<close> reports, and from its \<open>_meta\<close>: the field list and the
  \<open>select_on_save\<close> option.
\<close>

record model_inst =
  inst_pk :: int
  inst_attrs :: "string \<Rightarrow> pyval"
  inst_deferred :: "string set"
  inst_fields :: "field list"
  select_on_save :: bool

definition setattr :: "model_inst \<Rightarrow> string \<Rightarrow> pyval \<Rightarrow> model_inst" where
  "setattr self a v = self\<lparr>inst_attrs := (inst_attrs self)(a := v)\<rparr>"

definition value_from_object :: "field \<Rightarrow> model_inst \<Rightarrow> pyval" where
  "value_from_object f self = inst_attrs self (attname f)"

datatype error =
    ImproperlyConfigured
  | RuntimeError
  | AssertionError
  | DoesNotExist
  | ConcurrentUpdate model_inst

text \<open>\<open>get_version_field\<close>: the first \<open>VersionField\<close> of \<open>self._meta.fields\<close>.\<close>

fun first_version_field :: "field list \<Rightarrow> error + field" where
  "first_version_field [] = Inl ImproperlyConfigured"
| "first_version_field (f # fs) = (if is_version f then Inr f else first_version_field fs)"

definition get_version_field :: "model_inst \<Rightarrow> error + field" where
  "get_version_field self = first_version_field (inst_fields self)"

section \<open>The backing store\<close>

text \<open>
  The data-mapping framework is outside the repository. It is modelled by the
  statements it sends to the store: a table is a list of rows, a queryset is a table
  with a conjunction of conditions, and every statement is appended to a log.
\<close>

record row =
  r_pk :: int
  r_cols :: "string \<Rightarrow> pyval"

datatype cond = PkEq int | AttrEq string pyval

record queryset =
  qs_model :: string
  qs_where :: "cond list"

text \<open>
  A value to write: a literal, or the expression \<open>F(name) + k\<close> that the store
  evaluates on the row it updates.
\<close>

datatype expr = Const pyval | FPlus string int

text \<open>An entry \<open>(field, model, value)\<close> of the list \<open>values\<close>.\<close>

type_synonym staged = "field \<times> string option \<times> pyval"
type_synonym assignment = "field \<times> string option \<times> expr"

datatype stmt =
    UPDATE queryset "assignment list"
  | EXISTS queryset
  | SELECT int "field list"
  | INSERT string row

record database =
  tables :: "string \<Rightarrow> row list"
  statements :: "stmt list"

definition qs_filter :: "queryset \<Rightarrow> cond \<Rightarrow> queryset" where
  "qs_filter qs c = qs\<lparr>qs_where := qs_where qs @ [c]\<rparr>"

fun matches :: "row \<Rightarrow> cond \<Rightarrow> bool" where
  "matches r (PkEq k) = (r_pk r = k)"
| "matches r (AttrEq a v) = (r_cols r a = v)"

definition selected :: "queryset \<Rightarrow> row \<Rightarrow> bool" where
  "selected qs r = list_all (matches r) (qs_where qs)"

fun eval_expr :: "row \<Rightarrow> expr \<Rightarrow> pyval" where
  "eval_expr r (Const v) = v"
| "eval_expr r (FPlus a k) = (case r_cols r a of PInt n \<Rightarrow> PInt (n + k) | PNone \<Rightarrow> PNone)"

text \<open>\<open>SET\<close>: every right-hand side is evaluated on the row as it was.\<close>

fun write_row :: "row \<Rightarrow> assignment list \<Rightarrow> (string \<Rightarrow> pyval) \<Rightarrow> (string \<Rightarrow> pyval)" where
  "write_row old [] cols = cols"
| "write_row old ((f, m, e) # as) cols = write_row old as (cols(attname f := eval_expr old e))"

definition logged :: "stmt \<Rightarrow> database \<Rightarrow> database" where
  "logged st db = db\<lparr>statements := statements db @ [st]\<rparr>"

text \<open>The rows a queryset selects.\<close>

definition qs_rows :: "queryset \<Rightarrow> database \<Rightarrow> row list" where
  "qs_rows qs db = filter (selected qs) (tables db (qs_model qs))"

text \<open>\<open>UPDATE ... SET ... WHERE ...\<close>: the number of rows matched and the new store.\<close>

definition sql_update :: "queryset \<Rightarrow> assignment list \<Rightarrow> database \<Rightarrow> nat \<times> database" where
  "sql_update qs vs db =
     (length (qs_rows qs db),
      logged (UPDATE qs vs)
        (db\<lparr>tables := (tables db)(qs_model qs :=
               map (\<lambda>r. if selected qs r then r\<lparr>r_cols := write_row r vs (r_cols r)\<rparr> else r)
                 (tables db (qs_model qs)))\<rparr>))"

definition sql_exists :: "queryset \<Rightarrow> database \<Rightarrow> bool \<times> database" where
  "sql_exists qs db = (qs_rows qs db \<noteq> [], logged (EXISTS qs) db)"

text \<open>
  The value the store holds for field \<open>f\<close> of the record with primary key \<open>k\<close>, in
  the table of the model that declares the field; \<open>None\<close> when that table has no such
  row.
\<close>

definition db_value :: "(string \<Rightarrow> row list) \<Rightarrow> field \<Rightarrow> int \<Rightarrow> pyval option" where
  "db_value tbs f k =
     map_option (\<lambda>r. r_cols r (attname f)) (find (\<lambda>r. r_pk r = k) (tbs (fmodel f)))"

text \<open>
  One \<open>SELECT\<close> reading the given fields of the record with primary key \<open>k\<close>;
  \<open>None\<close> when the record is not there.
\<close>

fun fetch :: "(string \<Rightarrow> row list) \<Rightarrow> int \<Rightarrow> field list \<Rightarrow> (string \<times> pyval) list option" where
  "fetch tbs k [] = Some []"
| "fetch tbs k (f # fs) =
     (case db_value tbs f k of
        None \<Rightarrow> None
      | Some v \<Rightarrow> (case fetch tbs k fs of
                    None \<Rightarrow> None
                  | Some vs \<Rightarrow> Some ((attname f, v) # vs)))"

definition sql_select :: "int \<Rightarrow> field list \<Rightarrow> database \<Rightarrow> (string \<times> pyval) list option \<times> database" where
  "sql_select k fs db = (fetch (tables db) k fs, logged (SELECT k fs) db)"

definition sql_insert :: "string \<Rightarrow> row \<Rightarrow> database \<Rightarrow> database" where
  "sql_insert t r db =
     logged (INSERT t r) (db\<lparr>tables := (tables db)(t := tables db t @ [r])\<rparr>)"

section \<open>Programs over the store\<close>

text \<open>
  A call of the framework or of the protocol is a program that issues statements one
  after the other and continues with each reply. \<open>exec\<close> runs a program alone;
  \<open>interleave\<close> runs two programs against one store, each statement being atomic.
\<close>

datatype 'a io =
    Return 'a
  | Update queryset "assignment list" "nat \<Rightarrow> 'a io"
  | Exists queryset "bool \<Rightarrow> 'a io"
  | Select int "field list" "(string \<times> pyval) list option \<Rightarrow> 'a io"
  | Insert string row "'a io"

primrec bind_io :: "'a io \<Rightarrow> ('a \<Rightarrow> 'b io) \<Rightarrow> 'b io" where
  "bind_io (Return a) g = g a"
| "bind_io (Update qs vs k) g = Update qs vs (\<lambda>n. bind_io (k n) g)"
| "bind_io (Exists qs k) g = Exists qs (\<lambda>b. bind_io (k b) g)"
| "bind_io (Select pk fs k) g = Select pk fs (\<lambda>r. bind_io (k r) g)"
| "bind_io (Insert t r p) g = Insert t r (bind_io p g)"

primrec exec :: "'a io \<Rightarrow> database \<Rightarrow> 'a \<times> database" where
  "exec (Return a) db = (a, db)"
| "exec (Update qs vs k) db = exec (k (fst (sql_update qs vs db))) (snd (sql_update qs vs db))"
| "exec (Exists qs k) db = exec (k (fst (sql_exists qs db))) (snd (sql_exists qs db))"
| "exec (Select pk fs k) db = exec (k (fst (sql_select pk fs db))) (snd (sql_select pk fs db))"
| "exec (Insert t r p) db = exec p (sql_insert t r db)"

text \<open>One statement of a program; a finished program stays as it is.\<close>

fun step :: "'a io \<Rightarrow> database \<Rightarrow> 'a io \<times> database" where
  "step (Return a) db = (Return a, db)"
| "step (Update qs vs k) db = (k (fst (sql_update qs vs db)), snd (sql_update qs vs db))"
| "step (Exists qs k) db = (k (fst (sql_exists qs db)), snd (sql_exists qs db))"
| "step (Select pk fs k) db = (k (fst (sql_select pk fs db)), snd (sql_select pk fs db))"
| "step (Insert t r p) db = (p, sql_insert t r db)"

text \<open>
  A schedule says which of two programs issues the next statement (\<open>True\<close>: the
  first one).
\<close>

fun interleave :: "bool list \<Rightarrow> 'a io \<Rightarrow> 'a io \<Rightarrow> database \<Rightarrow> 'a io \<times> 'a io \<times> database" where
  "interleave [] p q db = (p, q, db)"
| "interleave (b # bs) p q db =
     (if b then interleave bs (fst (step p db)) q (snd (step p db))
      else interleave bs p (fst (step q db)) (snd (step q db)))"

text \<open>
  What a call does when it runs alone on a store: what it returns or raises, the
  record instance as it leaves it, the store as it leaves it, the statements it issues.
\<close>

definition returned :: "('a \<times> model_inst) io \<Rightarrow> database \<Rightarrow> 'a" where
  "returned p db = fst (fst (exec p db))"

definition self_after :: "('a \<times> model_inst) io \<Rightarrow> database \<Rightarrow> model_inst" where
  "self_after p db = snd (fst (exec p db))"

definition store_after :: "'a io \<Rightarrow> database \<Rightarrow> database" where
  "store_after p db = snd (exec p db)"

definition issued :: "'a io \<Rightarrow> database \<Rightarrow> stmt list" where
  "issued p db = drop (length (statements db)) (statements (store_after p db))"

section \<open>The framework's save primitives\<close>

text \<open>
  \<open>Model._do_update\<close> of the framework, which \<open>super()._do_update\<close> reaches:
  \<^verbatim>\<open>
  filtered = base_qs.filter(pk=pk_val)
  if not values:
      return update_fields is not None or filtered.exists()
  if self._meta.select_on_save and not forced_update:
      if filtered.exists():
          return filtered._update(values) > 0 or filtered.exists()
      else:
          return False
  return filtered._update(values) > 0
  \<close>
\<close>

definition Model_do_update ::
  "model_inst \<Rightarrow> queryset \<Rightarrow> int \<Rightarrow> assignment list \<Rightarrow> string list option \<Rightarrow> bool \<Rightarrow> bool io" where
  "Model_do_update self base_qs pk_val values update_fields forced_update =
     (let filtered = qs_filter base_qs (PkEq pk_val) in
      if values = [] then
        (if update_fields \<noteq> None then Return True else Exists filtered Return)
      else if select_on_save self \<and> \<not> forced_update then
        Exists filtered (\<lambda>found.
          if found then
            Update filtered values (\<lambda>n. if n > 0 then Return True else Exists filtered Return)
          else Return False)
      else Update filtered values (\<lambda>n. Return (n > 0)))"

text \<open>
  \<open>Model._do_insert\<close>: one \<open>INSERT\<close> into the manager's table of the values the
  instance holds for the given fields, read when the statement is built.
\<close>

definition Model_do_insert :: "model_inst \<Rightarrow> string \<Rightarrow> field list \<Rightarrow> int io" where
  "Model_do_insert self manager flds =
     Insert manager
       \<lparr>r_pk = inst_pk self,
        r_cols = (\<lambda>a. if a \<in> set (map attname flds) then inst_attrs self a else PNone)\<rparr>
       (Return (inst_pk self))"

text \<open>
  \<open>Model.refresh_from_db\<close>: reads the record with the instance's primary key and
  assigns every field that is not deferred; raises \<open>DoesNotExist\<close> when there is no
  such record.
\<close>

definition loaded_fields :: "model_inst \<Rightarrow> field list" where
  "loaded_fields self = filter (\<lambda>f. attname f \<notin> inst_deferred self) (inst_fields self)"

definition refresh_from_db :: "model_inst \<Rightarrow> (error + model_inst) io" where
  "refresh_from_db self =
     Select (inst_pk self) (loaded_fields self)
       (\<lambda>r. case r of
              None \<Rightarrow> Return (Inl DoesNotExist)
            | Some vals \<Rightarrow> Return (Inr (foldl (\<lambda>s (a, v). setattr s a v) self vals)))"

section \<open>The versioned update protocol: \<open>ConcurrentUpdate\<close> and \<open>VersionedMixin\<close>\<close>

text \<open>
  \<open>ConcurrentUpdate.__init__\<close> refreshes the model and keeps it; the result is the
  exception that is raised (the refresh's own exception when the refresh fails).
\<close>

definition ConcurrentUpdate_init :: "model_inst \<Rightarrow> error io" where
  "ConcurrentUpdate_init model =
     bind_io (refresh_from_db model)
       (\<lambda>r. case r of Inl e \<Rightarrow> Return e | Inr m \<Rightarrow> Return (ConcurrentUpdate m))"

text \<open>The model held by the exception, and so the state of \<open>self\<close> once it is raised.\<close>

fun raised_model :: "error \<Rightarrow> model_inst \<Rightarrow> model_inst" where
  "raised_model (ConcurrentUpdate m) self = m"
| "raised_model e self = self"

text \<open>
  \<open>_do_insert\<close>. The arguments \<open>using\<close>, \<open>update_pk\<close> and \<open>raw\<close> are handed on
  unchanged and are left out.
\<close>

definition do_insert :: "model_inst \<Rightarrow> string \<Rightarrow> field list \<Rightarrow> ((error + int) \<times> model_inst) io" where
  "do_insert self manager flds =
     (case get_version_field self of
        Inl e \<Rightarrow> Return (Inl e, self)
      | Inr version_field \<Rightarrow>
          let client_version = value_from_object version_field self;
              self1 = (if client_version = PNone
                       then setattr self (attname version_field) (fdefault version_field)
                       else self)
          in bind_io (Model_do_insert self1 manager flds) (\<lambda>r. Return (Inr r, self1)))"

text \<open>
  The loop of \<open>_do_update\<close> over \<open>values\<close>. It returns the exception raised, if any,
  the list as rewritten and \<open>self\<close> as modified. \<open>client_version\<close> was read before
  the loop and does not change in it.
\<close>

fun rewrite_values ::
  "field \<Rightarrow> pyval \<Rightarrow> staged list \<Rightarrow> model_inst \<Rightarrow> error option \<times> assignment list \<times> model_inst" where
  "rewrite_values version_field client_version [] self = (None, [], self)"
| "rewrite_values version_field client_version ((field, model, value) # rest) self =
     (if is_version field then
        if \<not> (client_version = PNone \<or> client_version = value) then
          (Some AssertionError, map (\<lambda>(f, m, v). (f, m, Const v)) ((field, model, value) # rest), self)
        else
          (case value of
             PInt n \<Rightarrow>
               let new_version = PInt (n + 1);
                   (e, vs, self') = rewrite_values version_field client_version rest
                                      (setattr self (attname version_field) new_version)
               in (e, (field, model, Const new_version) # vs, self')
           | PNone \<Rightarrow>
               let (e, vs, self') = rewrite_values version_field client_version rest self
               in (e, (field, model, FPlus (attname version_field) 1) # vs, self'))
      else
        let (e, vs, self') = rewrite_values version_field client_version rest self
        in (e, (field, model, Const value) # vs, self'))"

text \<open>The queryset the write goes to: \<open>version_qs\<close>.\<close>

definition version_qs :: "scopes \<Rightarrow> field \<Rightarrow> pyval \<Rightarrow> queryset \<Rightarrow> queryset" where
  "version_qs sc version_field client_version base_qs =
     (if client_version \<noteq> PNone \<and> truthy (active sc (Some InstObj))
      then qs_filter base_qs (AttrEq (attname version_field) client_version)
      else base_qs)"

text \<open>
  \<open>_do_update\<close>. The result is what the call returns or raises, with \<open>self\<close> as
  the call leaves it. The argument \<open>using\<close> is handed on unchanged and is left out.
\<close>

definition do_update ::
  "scopes \<Rightarrow> model_inst \<Rightarrow> queryset \<Rightarrow> int \<Rightarrow> staged list \<Rightarrow> string list option \<Rightarrow> bool
     \<Rightarrow> ((error + bool) \<times> model_inst) io" where
  "do_update sc self base_qs pk_val values update_fields forced_update =
     (case get_version_field self of
        Inl e \<Rightarrow> Return (Inl e, self)
      | Inr version_field \<Rightarrow>
          if fmodel version_field \<noteq> qs_model base_qs then
            bind_io (Model_do_update self base_qs pk_val
                       (map (\<lambda>(f, m, v). (f, m, Const v)) values) update_fields forced_update)
              (\<lambda>updated. Return (Inr updated, self))
          else if attname version_field \<in> inst_deferred self then
            Return (Inl RuntimeError, self)
          else
            let client_version = value_from_object version_field self;
                vqs = version_qs sc version_field client_version base_qs
            in (case rewrite_values version_field client_version values self of
                  (Some e, vs, self1) \<Rightarrow> Return (Inl e, self1)
                | (None, vs, self1) \<Rightarrow>
                    bind_io (Model_do_update self1 vqs pk_val vs
                               (if vs \<noteq> [] then update_fields else None) forced_update)
                      (\<lambda>updated.
                         if \<not> updated then
                           Exists (qs_filter base_qs (PkEq pk_val)) (\<lambda>found.
                             if found then
                               bind_io (ConcurrentUpdate_init self1)
                                 (\<lambda>e. Return (Inl e, raised_model e self1))
                             else Return (Inr updated, self1))
                         else Return (Inr updated, self1))))"

section \<open>Two concurrent attempts\<close>

text \<open>
  Two calls run against one store, their statements interleaved by a schedule. The
  predicates below describe one program of such a pair whatever the other one does, as
  long as the store stays in a given set.

  \<open>settles S Q p\<close>: from a store in \<open>S\<close>, every statement of \<open>p\<close> leaves the store
  in \<open>S\<close>, and \<open>p\<close> can only finish with a result satisfying \<open>Q\<close>.
\<close>

inductive settles :: "database set \<Rightarrow> ('a \<Rightarrow> bool) \<Rightarrow> 'a io \<Rightarrow> bool"
  for S :: "database set" and Q :: "'a \<Rightarrow> bool" where
  settles_done: "Q a \<Longrightarrow> settles S Q (Return a)"
| settles_step:
    "(\<And>a. p \<noteq> Return a) \<Longrightarrow>
     (\<And>db. db \<in> S \<Longrightarrow> snd (step p db) \<in> S \<and> settles S Q (fst (step p db))) \<Longrightarrow>
     settles S Q p"

text \<open>
  \<open>races S0 S1 W L p\<close>: \<open>p\<close> has not finished; from a store in \<open>S0\<close> its next
  statement either leaves the store in \<open>S0\<close> with \<open>p\<close> still racing, or moves the store
  to \<open>S1\<close> and finishes \<open>p\<close> with a result satisfying \<open>W\<close>; from a store in \<open>S1\<close> its
  next statement leaves the store in \<open>S1\<close> and \<open>p\<close> settles for \<open>L\<close>.
\<close>

inductive races ::
  "database set \<Rightarrow> database set \<Rightarrow> ('a \<Rightarrow> bool) \<Rightarrow> ('a \<Rightarrow> bool) \<Rightarrow> 'a io \<Rightarrow> bool"
  for S0 :: "database set" and S1 :: "database set"
    and W :: "'a \<Rightarrow> bool" and L :: "'a \<Rightarrow> bool" where
  races_step:
    "(\<And>a. p \<noteq> Return a) \<Longrightarrow>
     (\<And>db. db \<in> S0 \<Longrightarrow>
        (snd (step p db) \<in> S0 \<and> races S0 S1 W L (fst (step p db)))
        \<or> (snd (step p db) \<in> S1 \<and> (\<exists>a. fst (step p db) = Return a \<and> W a))) \<Longrightarrow>
     (\<And>db. db \<in> S1 \<Longrightarrow> snd (step p db) \<in> S1 \<and> settles S1 L (fst (step p db))) \<Longrightarrow>
     races S0 S1 W L p"

text \<open>The configurations two racing programs can reach.\<close>

definition race_inv ::
  "database set \<Rightarrow> database set \<Rightarrow> ('a \<Rightarrow> bool) \<Rightarrow> ('a \<Rightarrow> bool)
     \<Rightarrow> 'a io \<times> 'a io \<times> database \<Rightarrow> bool" where
  "race_inv S0 S1 W L c = (case c of (p, q, db) \<Rightarrow>
     (db \<in> S0 \<and> races S0 S1 W L p \<and> races S0 S1 W L q)
     \<or> (db \<in> S1 \<and> (\<exists>a. p = Return a \<and> W a) \<and> (races S0 S1 W L q \<or> settles S1 L q))
     \<or> (db \<in> S1 \<and> (races S0 S1 W L p \<or> settles S1 L p) \<and> (\<exists>b. q = Return b \<and> W b)))"

text \<open>\<open>within n p\<close>: \<open>p\<close> finishes after at most \<open>n\<close> statements, whatever the replies.\<close>

inductive within :: "nat \<Rightarrow> 'a io \<Rightarrow> bool" where
  within_done: "within n (Return a)"
| within_step: "(\<And>db. within n (fst (step p db))) \<Longrightarrow> within (Suc n) p"

text \<open>
  The store holds the record \<open>k\<close> in table \<open>t\<close> with the value \<open>x\<close> in column \<open>a\<close>,
  and every field of \<open>fs\<close> can be read for that record.
\<close>

definition holds_version :: "string \<Rightarrow> int \<Rightarrow> string \<Rightarrow> pyval \<Rightarrow> field list \<Rightarrow> database \<Rightarrow> bool" where
  "holds_version t k a x fs db =
     ((\<exists>r \<in> set (tables db t). r_pk r = k)
      \<and> (\<forall>r \<in> set (tables db t). r_pk r = k \<longrightarrow> r_cols r a = x)
      \<and> (\<forall>f \<in> set fs. db_value (tables db) f k \<noteq> None))"

text \<open>
  An update attempt on record \<open>pk_val\<close> that presents client version \<open>v\<close> with
  optimistic locking active: the call the framework makes on saving an instance that
  holds version \<open>v\<close>, with the version staged in the write-value list.
\<close>

definition presents ::
  "scopes \<Rightarrow> model_inst \<Rightarrow> queryset \<Rightarrow> int \<Rightarrow> staged list \<Rightarrow> field \<Rightarrow> int \<Rightarrow> bool" where
  "presents sc self base_qs pk_val values vf v =
     (get_version_field self = Inr vf
      \<and> fmodel vf = qs_model base_qs
      \<and> qs_where base_qs = []
      \<and> attname vf \<notin> inst_deferred self
      \<and> inst_pk self = pk_val
      \<and> distinct (map attname (inst_fields self))
      \<and> value_from_object vf self = PInt v
      \<and> truthy (active sc (Some InstObj))
      \<and> (\<exists>m. (vf, m, PInt v) \<in> set values)
      \<and> (\<forall>(f, m, x) \<in> set values. is_version f \<longrightarrow> x = PInt v)
      \<and> (\<forall>(f, m, x) \<in> set values. attname f = attname vf \<longrightarrow> is_version f))"

text \<open>The end of \<open>_do_update\<close>, after the framework's update has returned.\<close>

definition after_write ::
  "model_inst \<Rightarrow> queryset \<Rightarrow> int \<Rightarrow> bool \<Rightarrow> ((error + bool) \<times> model_inst) io" where
  "after_write self1 base_qs pk_val updated =
     (if \<not> updated then
        Exists (qs_filter base_qs (PkEq pk_val)) (\<lambda>found.
          if found then
            bind_io (ConcurrentUpdate_init self1) (\<lambda>e. Return (Inl e, raised_model e self1))
          else Return (Inr updated, self1))
      else Return (Inr updated, self1))"

text \<open>What the two attempts end with: the winner and the loser.\<close>

definition succeeded :: "(error + bool) \<times> model_inst \<Rightarrow> bool" where
  "succeeded r = (fst r = Inr True)"

definition conflicted :: "string \<Rightarrow> pyval \<Rightarrow> (error + bool) \<times> model_inst \<Rightarrow> bool" where
  "conflicted a x r = (\<exists>m. r = (Inl (ConcurrentUpdate m), m) \<and> inst_attrs m a = x)"

section \<open>Example data\<close>

text \<open>
  A model \<open>Article\<close> with a title and a version field declared without an explicit
  default, one record instance of it, a store holding given rows, and scope states.
\<close>

definition version_f :: field where
  "version_f = VersionField ''version'' ''Article'' Map.empty"

definition title_f :: field where
  "title_f = \<lparr>attname = ''title'', is_version = False, fmodel = ''Article'', fdefault = PNone\<rparr>"

definition article :: "pyval \<Rightarrow> pyval \<Rightarrow> model_inst" where
  "article title version =
     \<lparr>inst_pk = 1,
      inst_attrs = (\<lambda>a. if a = ''title'' then title else if a = ''version'' then version else PNone),
      inst_deferred = {},
      inst_fields = [title_f, version_f],
      select_on_save = False\<rparr>"

definition article_row :: "int \<Rightarrow> pyval \<Rightarrow> pyval \<Rightarrow> row" where
  "article_row k title version =
     \<lparr>r_pk = k,
      r_cols = (\<lambda>a. if a = ''title'' then title else if a = ''version'' then version else PNone)\<rparr>"

definition store :: "row list \<Rightarrow> database" where
  "store rows = \<lparr>tables = (\<lambda>t. if t = ''Article'' then rows else []), statements = []\<rparr>"

definition articles :: queryset where
  "articles = \<lparr>qs_model = ''Article'', qs_where = []\<rparr>"

text \<open>
  \<open>Article\<close> as a child of a model \<open>Page\<close> in multi-table inheritance: the parent's
  queryset and a store holding both tables.
\<close>

definition pages :: queryset where
  "pages = \<lparr>qs_model = ''Page'', qs_where = []\<rparr>"

definition slug_f :: field where
  "slug_f = \<lparr>attname = ''slug'', is_version = False, fmodel = ''Page'', fdefault = PNone\<rparr>"

definition site :: "row list \<Rightarrow> row list \<Rightarrow> database" where
  "site page_rows article_rows =
     \<lparr>tables = (\<lambda>t. if t = ''Page'' then page_rows
                    else if t = ''Article'' then article_rows else []),
      statements = []\<rparr>"

definition no_scope :: scopes where
  "no_scope = \<lparr>current_state = None, type_attr = None, inst_attr = None\<rparr>"

definition ambient_scope :: scopes where
  "ambient_scope = enter None no_scope"

text \<open>
  A scope entered and left on the instance, then entered on the record type: the
  instance keeps a counter of its own, \<open>0\<close>, and the type's counter is \<open>1\<close>.
\<close>

definition hidden_type_scope :: scopes where
  "hidden_type_scope =
     enter (Some TypeObj) (exit (Some InstObj) (enter (Some InstObj) no_scope))"

section \<open>Properties of the locking scope controller\<close>

text \<open>
  C5 (as the code has it). Starting from a state in which every counter is unset or
  zero, for each owner (thread-local, record type, record instance): after two enters
  and one exit the scope is active; after the second exit it is inactive; a third exit
  raises nothing, leaves the owner's counter at \<open>-1\<close>, and the scope then reports
  active, because the test is Python's truth value and \<open>-1\<close> is true.
\<close>

theorem reentrant_scope:
  assumes "quiet s"
  shows "truthy (active (exit m (enter m (enter m s))) m)
       \<and> \<not> truthy (active (exit m (exit m (enter m (enter m s)))) m)
       \<and> getattr_ol (exit m (exit m (exit m (enter m (enter m s))))) (stateObj m) 0 = - 1
       \<and> truthy (active (exit m (exit m (exit m (enter m (enter m s))))) m)"
proof (cases m)
  case None
  then show ?thesis using assms
    by (auto simp: quiet_def enter_def exit_def active_def Let_def)
next
  case (Some r)
  then show ?thesis using assms
    by (cases r) (auto simp: quiet_def enter_def exit_def active_def Let_def)
qed

theorem reentrant_scope_witness:
  "quiet \<lparr>current_state = None, type_attr = None, inst_attr = None\<rparr>
   \<and> truthy (active (exit (Some InstObj) (enter (Some InstObj) (enter (Some InstObj)
        \<lparr>current_state = None, type_attr = None, inst_attr = None\<rparr>))) (Some InstObj))
   \<and> \<not> truthy (active (exit (Some InstObj) (exit (Some InstObj) (enter (Some InstObj)
        (enter (Some InstObj) \<lparr>current_state = None, type_attr = None, inst_attr = None\<rparr>))))
        (Some InstObj))"
proof -
  have q: "quiet \<lparr>current_state = None, type_attr = None, inst_attr = None\<rparr>"
    by (simp add: quiet_def)
  from reentrant_scope [OF q, of "Some InstObj"] q show ?thesis by blast
qed

text \<open>
  The claim as written fails: after two enters and three exits of the thread-local
  scope, starting with no counter set, the activity query is true.
\<close>

theorem unbalanced_exit_reports_active:
  "truthy (active (exit None (exit None (exit None (enter None (enter None
     \<lparr>current_state = None, type_attr = None, inst_attr = None\<rparr>))))) None)"
  by (simp add: enter_def exit_def active_def Let_def)

section \<open>Auxiliary facts\<close>

lemmas obs = returned_def self_after_def store_after_def

lemmas example_defs = version_f_def title_f_def article_def article_row_def store_def
  pages_def slug_f_def site_def
  articles_def no_scope_def ambient_scope_def hidden_type_scope_def VersionField_def VersionField_init_def
  setdefault_def

lemmas model_defs = get_version_field_def value_from_object_def version_qs_def qs_filter_def
  qs_rows_def selected_def active_def enter_def exit_def db_value_def loaded_fields_def

lemma exec_bind: "exec (bind_io p g) db = exec (g (fst (exec p db))) (snd (exec p db))"
  by (induction p arbitrary: db) simp_all

lemma tables_logged [simp]: "tables (logged st db) = tables db"
  by (simp add: logged_def)

lemma statements_logged [simp]: "statements (logged st db) = statements db @ [st]"
  by (simp add: logged_def)

lemma qs_rows_logged [simp]: "qs_rows qs (logged st db) = qs_rows qs db"
  by (simp add: qs_rows_def)

lemma qs_rows_cong: "tables db' = tables db \<Longrightarrow> qs_rows qs db' = qs_rows qs db"
  by (simp add: qs_rows_def)

lemma map_unselected: "filter P t = [] \<Longrightarrow> map (\<lambda>r. if P r then g r else r) t = t"
  by (induction t) (auto split: if_splits)

lemma sql_update_miss: "qs_rows qs db = [] \<Longrightarrow> tables (snd (sql_update qs vs db)) = tables db"
  by (simp add: sql_update_def qs_rows_def map_unselected)

lemma fst_sql_update [simp]: "fst (sql_update qs vs db) = length (qs_rows qs db)"
  by (simp add: sql_update_def)

lemma statements_sql_update [simp]:
  "statements (snd (sql_update qs vs db)) = statements db @ [UPDATE qs vs]"
  by (simp add: sql_update_def)

lemma fst_sql_exists [simp]: "fst (sql_exists qs db) = (qs_rows qs db \<noteq> [])"
  by (simp add: sql_exists_def)

lemma snd_sql_exists [simp]: "snd (sql_exists qs db) = logged (EXISTS qs) db"
  by (simp add: sql_exists_def)

lemma fst_sql_select [simp]: "fst (sql_select k fs db) = fetch (tables db) k fs"
  by (simp add: sql_select_def)

lemma snd_sql_select [simp]: "snd (sql_select k fs db) = logged (SELECT k fs) db"
  by (simp add: sql_select_def)

text \<open>The framework's update: result, store and statements.\<close>

lemma Model_do_update_result:
  assumes "vs = [] \<longrightarrow> uf = None"
  shows "fst (exec (Model_do_update self qs pk vs uf forced) db)
         = (qs_rows (qs_filter qs (PkEq pk)) db \<noteq> [])"
  using assms by (auto simp: Model_do_update_def Let_def)

lemma Model_do_update_miss:
  assumes "qs_rows (qs_filter qs (PkEq pk)) db = []"
  shows "tables (snd (exec (Model_do_update self qs pk vs uf forced) db)) = tables db"
  using assms by (auto simp: Model_do_update_def Let_def sql_update_miss)

lemma Model_do_update_statements:
  "\<exists>new. statements (snd (exec (Model_do_update self qs pk vs uf forced) db)) = statements db @ new
     \<and> set new \<subseteq> {UPDATE (qs_filter qs (PkEq pk)) vs, EXISTS (qs_filter qs (PkEq pk))}"
  by (auto simp: Model_do_update_def Let_def)

text \<open>The loop over the staged values.\<close>

lemma setattr_twice [simp]: "setattr (setattr self a v) a w = setattr self a w"
  by (simp add: setattr_def)

lemma setattr_frame [simp]:
  "inst_pk (setattr self a v) = inst_pk self"
  "inst_deferred (setattr self a v) = inst_deferred self"
  "inst_fields (setattr self a v) = inst_fields self"
  "select_on_save (setattr self a v) = select_on_save self"
  "inst_attrs (setattr self a v) b = (if b = a then v else inst_attrs self b)"
  by (simp_all add: setattr_def)

lemma rewrite_values_length:
  "length (fst (snd (rewrite_values vf cv values self))) = length values"
  by (induction vf cv "values" self rule: rewrite_values.induct)
     (auto simp: Let_def case_prod_beta split: pyval.splits)

lemma rewrite_values_ok:
  assumes "cv = PNone \<or> (\<forall>(f, m, v) \<in> set values. is_version f \<longrightarrow> v = cv)"
  shows "fst (rewrite_values vf cv values self) = None"
  using assms
  by (induction vf cv "values" self rule: rewrite_values.induct)
     (auto simp: Let_def case_prod_beta split: pyval.splits)


lemma rewrite_values_written:
  assumes "cv = PNone \<or> (\<forall>(f, m, v) \<in> set values. is_version f \<longrightarrow> v = cv)"
  shows "fst (snd (rewrite_values vf cv values self))
         = map (\<lambda>(f, m, v). (f, m,
                  if is_version f
                  then (case v of PInt n \<Rightarrow> Const (PInt (n + 1)) | PNone \<Rightarrow> FPlus (attname vf) 1)
                  else Const v)) values"
  using assms
  by (induction vf cv "values" self rule: rewrite_values.induct)
     (auto simp: Let_def case_prod_beta split: pyval.splits)

lemma rewrite_values_frame:
  "inst_pk (snd (snd (rewrite_values vf cv values self))) = inst_pk self
   \<and> inst_deferred (snd (snd (rewrite_values vf cv values self))) = inst_deferred self
   \<and> inst_fields (snd (snd (rewrite_values vf cv values self))) = inst_fields self
   \<and> select_on_save (snd (snd (rewrite_values vf cv values self))) = select_on_save self
   \<and> (\<forall>a. a \<noteq> attname vf \<longrightarrow>
        inst_attrs (snd (snd (rewrite_values vf cv values self))) a = inst_attrs self a)"
  by (induction vf cv "values" self rule: rewrite_values.induct)
     (auto simp: Let_def case_prod_beta split: pyval.splits)

lemma rewrite_values_self_client:
  assumes "\<forall>(f, m, v) \<in> set values. is_version f \<longrightarrow> v = PInt c" and "cv = PInt c"
  shows "snd (snd (rewrite_values vf cv values self))
         = (if \<exists>(f, m, v) \<in> set values. is_version f
            then setattr self (attname vf) (PInt (c + 1)) else self)"
  using assms
  by (induction vf cv "values" self rule: rewrite_values.induct)
     (auto simp: Let_def case_prod_beta split: pyval.splits)


text \<open>The protocol, once the checks before the write have passed.\<close>

lemma do_update_unfold:
  assumes "get_version_field self = Inr vf"
    and "fmodel vf = qs_model base_qs"
    and "attname vf \<notin> inst_deferred self"
    and "rewrite_values vf (value_from_object vf self) values self = (None, vs, self1)"
  shows "exec (do_update sc self base_qs pk values uf forced) db =
     (let vqs = version_qs sc vf (value_from_object vf self) base_qs;
          r = exec (Model_do_update self1 vqs pk vs (if vs \<noteq> [] then uf else None) forced) db;
          db1 = logged (EXISTS (qs_filter base_qs (PkEq pk))) (snd r);
          db2 = logged (SELECT (inst_pk self1) (loaded_fields self1)) db1
      in if fst r then ((Inr True, self1), snd r)
         else if qs_rows (qs_filter base_qs (PkEq pk)) (snd r) \<noteq> [] then
           (case fetch (tables (snd r)) (inst_pk self1) (loaded_fields self1) of
              None \<Rightarrow> ((Inl DoesNotExist, self1), db2)
            | Some vals \<Rightarrow>
                ((Inl (ConcurrentUpdate (foldl (\<lambda>s (a, v). setattr s a v) self1 vals)),
                  foldl (\<lambda>s (a, v). setattr s a v) self1 vals), db2))
         else ((Inr False, self1), db1))"
  using assms
  by (auto simp: do_update_def Let_def exec_bind ConcurrentUpdate_init_def refresh_from_db_def
           split: option.splits)

text \<open>Reading a record back.\<close>

lemma fetch_names: "fetch tbs k fs = Some vals \<Longrightarrow> map fst vals = map attname fs"
  by (induction fs arbitrary: vals) (auto split: option.splits)

lemma foldl_setattr_frame:
  "inst_pk (foldl (\<lambda>s (a, v). setattr s a v) self vals) = inst_pk self
   \<and> inst_deferred (foldl (\<lambda>s (a, v). setattr s a v) self vals) = inst_deferred self
   \<and> inst_fields (foldl (\<lambda>s (a, v). setattr s a v) self vals) = inst_fields self
   \<and> (b \<notin> fst ` set vals \<longrightarrow>
        inst_attrs (foldl (\<lambda>s (a, v). setattr s a v) self vals) b = inst_attrs self b)"
  by (induction vals arbitrary: self) (auto simp: case_prod_beta)

lemma fetch_refreshed:
  assumes "fetch tbs k fs = Some vals" and "distinct (map attname fs)" and "f \<in> set fs"
  shows "db_value tbs f k = Some (inst_attrs (foldl (\<lambda>s (a, v). setattr s a v) self vals) (attname f))"
  using assms
proof (induction fs arbitrary: vals self)
  case Nil
  then show ?case by simp
next
  case (Cons g gs)
  from Cons.prems(1) obtain v vs where gv: "db_value tbs g k = Some v"
    and rest: "fetch tbs k gs = Some vs" and vals: "vals = (attname g, v) # vs"
    by (auto split: option.splits)
  show ?case
  proof (cases "f = g")
    case True
    have "attname g \<notin> fst ` set vs"
      using fetch_names [OF rest] Cons.prems(2)
      by (metis distinct.simps(2) list.set_map list.simps(9))
    then show ?thesis
      using True gv vals foldl_setattr_frame [of "setattr self (attname g) v" vs "attname g"]
      by simp
  next
    case False
    with Cons.prems have "f \<in> set gs" "distinct (map attname gs)" by auto
    from Cons.IH [OF rest this(2) this(1)] vals show ?thesis by simp
  qed
qed

lemma fetch_total:
  assumes "\<forall>f \<in> set fs. db_value tbs f k \<noteq> None"
  shows "fetch tbs k fs \<noteq> None"
  using assms by (induction fs) (auto split: option.splits)


section \<open>Properties of the update protocol\<close>



lemma Model_do_update_default:
  assumes "vs \<noteq> []" and "\<not> (select_on_save self \<and> \<not> forced)"
  shows "statements (snd (exec (Model_do_update self qs pk vs uf forced) db))
         = statements db @ [UPDATE (qs_filter qs (PkEq pk)) vs]"
  using assms by (auto simp: Model_do_update_def Let_def)

lemma do_update_statements:
  assumes "get_version_field self = Inr vf"
    and "fmodel vf = qs_model base_qs"
    and "attname vf \<notin> inst_deferred self"
    and "rewrite_values vf (value_from_object vf self) values self = (None, vs, self1)"
  shows "\<exists>new rest. statements (store_after (do_update sc self base_qs pk values uf forced) db)
             = statements db @ new @ rest
     \<and> statements (snd (exec (Model_do_update self1
            (version_qs sc vf (value_from_object vf self) base_qs) pk vs
            (if vs \<noteq> [] then uf else None) forced) db)) = statements db @ new
     \<and> (\<forall>q a. UPDATE q a \<notin> set rest)"
proof -
  let ?r = "exec (Model_do_update self1 (version_qs sc vf (value_from_object vf self) base_qs)
                    pk vs (if vs \<noteq> [] then uf else None) forced) db"
  obtain new where new: "statements (snd ?r) = statements db @ new"
    using Model_do_update_statements by blast
  show ?thesis
    using do_update_unfold [OF assms, of sc pk uf forced db] new
    by (auto simp: obs Let_def split: option.splits)
qed

text \<open>
  C2. An update on the model that declares the version field, whose checks before the
  write pass, sends every \<open>UPDATE\<close> to the model's table with the conditions of
  \<open>base_qs\<close>, then the equality of the version column with the client version exactly
  when the client version is not \<open>None\<close> and the scope controller reports active for
  the instance, then the primary key. When a write-value list is given and the
  framework takes its plain path, such an \<open>UPDATE\<close> is sent. When the client version is
  \<open>None\<close> the call never raises \<open>ConcurrentUpdate\<close>, and it returns \<open>True\<close> when the
  row exists.
\<close>

theorem version_predicate:
  assumes vf: "get_version_field self = Inr vf"
    and tbl: "fmodel vf = qs_model base_qs"
    and ndef: "attname vf \<notin> inst_deferred self"
    and ok: "value_from_object vf self = PNone
             \<or> (\<forall>(f, m, v) \<in> set values. is_version f \<longrightarrow> v = value_from_object vf self)"
  shows "(\<forall>q a. UPDATE q a \<in> set (issued (do_update sc self base_qs pk_val values uf forced) db) \<longrightarrow>
            q = \<lparr>qs_model = qs_model base_qs,
                 qs_where = qs_where base_qs
                   @ (if value_from_object vf self \<noteq> PNone \<and> truthy (active sc (Some InstObj))
                      then [AttrEq (attname vf) (value_from_object vf self)] else [])
                   @ [PkEq pk_val]\<rparr>)
     \<and> (values \<noteq> [] \<and> \<not> (select_on_save self \<and> \<not> forced) \<longrightarrow>
          (\<exists>q a. UPDATE q a \<in> set (issued (do_update sc self base_qs pk_val values uf forced) db)))
     \<and> (value_from_object vf self = PNone \<longrightarrow>
          (\<forall>m. returned (do_update sc self base_qs pk_val values uf forced) db
                 \<noteq> Inl (ConcurrentUpdate m))
          \<and> (qs_rows (qs_filter base_qs (PkEq pk_val)) db \<noteq> [] \<longrightarrow>
               returned (do_update sc self base_qs pk_val values uf forced) db = Inr True))"
proof -
  let ?cv = "value_from_object vf self"
  let ?vqs = "version_qs sc vf ?cv base_qs"
  let ?P = "do_update sc self base_qs pk_val values uf forced"
  obtain vs self1 where rv: "rewrite_values vf ?cv values self = (None, vs, self1)"
    using rewrite_values_ok [OF ok, of vf self] by (cases "rewrite_values vf ?cv values self") auto
  have len: "length vs = length values"
    using rewrite_values_length [of vf ?cv "values" self] rv by simp
  have sos: "select_on_save self1 = select_on_save self"
    using rewrite_values_frame [of vf ?cv "values" self] rv by simp
  let ?uf = "if vs \<noteq> [] then uf else None"
  let ?r = "exec (Model_do_update self1 ?vqs pk_val vs ?uf forced) db"
  from do_update_statements [OF vf tbl ndef rv, of sc pk_val uf forced db]
  obtain new rest where st: "statements (store_after ?P db) = statements db @ new @ rest"
    and new: "statements (snd ?r) = statements db @ new"
    and rest: "\<forall>q a. UPDATE q a \<notin> set rest"
    by blast
  have iss: "issued ?P db = new @ rest"
    by (simp add: issued_def st)
  from Model_do_update_statements [of self1 ?vqs pk_val vs ?uf forced db] new
  have sub: "set new \<subseteq> {UPDATE (qs_filter ?vqs (PkEq pk_val)) vs, EXISTS (qs_filter ?vqs (PkEq pk_val))}"
    by auto
  have shape: "qs_filter ?vqs (PkEq pk_val)
    = \<lparr>qs_model = qs_model base_qs,
       qs_where = qs_where base_qs
         @ (if ?cv \<noteq> PNone \<and> truthy (active sc (Some InstObj))
            then [AttrEq (attname vf) ?cv] else [])
         @ [PkEq pk_val]\<rparr>"
    by (simp add: version_qs_def qs_filter_def)
  have a: "\<forall>q a. UPDATE q a \<in> set (issued ?P db) \<longrightarrow> q = qs_filter ?vqs (PkEq pk_val)"
    using iss sub rest by auto
  have b: "values \<noteq> [] \<and> \<not> (select_on_save self \<and> \<not> forced) \<longrightarrow>
          (\<exists>q a. UPDATE q a \<in> set (issued ?P db))"
  proof
    assume h: "values \<noteq> [] \<and> \<not> (select_on_save self \<and> \<not> forced)"
    then have "vs \<noteq> []" using len by auto
    from Model_do_update_default [OF this, of self1 forced ?vqs pk_val ?uf db] h sos new
    have "new = [UPDATE (qs_filter ?vqs (PkEq pk_val)) vs]" by simp
    then show "\<exists>q a. UPDATE q a \<in> set (issued ?P db)" using iss by auto
  qed
  note unf = do_update_unfold [OF vf tbl ndef rv, of sc pk_val uf forced db]
  have res: "fst ?r = (qs_rows (qs_filter ?vqs (PkEq pk_val)) db \<noteq> [])"
    using Model_do_update_result [of vs ?uf self1 ?vqs pk_val forced db] by simp
  have c: "?cv = PNone \<longrightarrow>
          (\<forall>m. returned ?P db \<noteq> Inl (ConcurrentUpdate m))
          \<and> (qs_rows (qs_filter base_qs (PkEq pk_val)) db \<noteq> [] \<longrightarrow> returned ?P db = Inr True)"
  proof
    assume n: "?cv = PNone"
    then have vq: "?vqs = base_qs" by (simp add: version_qs_def)
    show "(\<forall>m. returned ?P db \<noteq> Inl (ConcurrentUpdate m))
          \<and> (qs_rows (qs_filter base_qs (PkEq pk_val)) db \<noteq> [] \<longrightarrow> returned ?P db = Inr True)"
    proof (cases "qs_rows (qs_filter base_qs (PkEq pk_val)) db = []")
      case True
      have "tables (snd ?r) = tables db"
        using Model_do_update_miss [of ?vqs pk_val db self1 vs ?uf forced] True vq by simp
      then have "qs_rows (qs_filter base_qs (PkEq pk_val)) (snd ?r) = []"
        using True by (simp add: qs_rows_def)
      then show ?thesis using unf res True vq by (simp add: obs Let_def)
    next
      case False
      then show ?thesis using unf res vq by (simp add: obs Let_def)
    qed
  qed
  from a b c show ?thesis unfolding shape by blast
qed

theorem version_predicate_witness:
  "(\<exists>a. UPDATE \<lparr>qs_model = ''Article'', qs_where = [AttrEq ''version'' (PInt 3), PkEq 1]\<rparr> a
          \<in> set (issued (do_update ambient_scope (article (PInt 7) (PInt 3)) articles 1
              [(title_f, None, PInt 7), (version_f, None, PInt 3)] None False)
              (store [article_row 1 (PInt 5) (PInt 3)])))
   \<and> (\<exists>a. UPDATE \<lparr>qs_model = ''Article'', qs_where = [PkEq 1]\<rparr> a
          \<in> set (issued (do_update ambient_scope (article (PInt 7) PNone) articles 1
              [(title_f, None, PInt 7), (version_f, None, PNone)] None False)
              (store [article_row 1 (PInt 5) (PInt 4)])))
   \<and> returned (do_update ambient_scope (article (PInt 7) PNone) articles 1
              [(title_f, None, PInt 7), (version_f, None, PNone)] None False)
              (store [article_row 1 (PInt 5) (PInt 4)]) = Inr True"
proof -
  have vf: "get_version_field (article t v) = Inr version_f" for t v
    by (simp add: example_defs model_defs)
  have tbl: "fmodel version_f = qs_model articles"
    by (simp add: example_defs)
  have ndef: "attname version_f \<notin> inst_deferred (article t v)" for t v
    by (simp add: example_defs)
  have ok1: "value_from_object version_f (article (PInt 7) (PInt 3)) = PNone
     \<or> (\<forall>(f, m, v) \<in> set [(title_f, None, PInt 7), (version_f, None, PInt 3)].
           is_version f \<longrightarrow> v = value_from_object version_f (article (PInt 7) (PInt 3)))"
    by (simp add: example_defs model_defs)
  have ok2: "value_from_object version_f (article (PInt 7) PNone) = PNone
     \<or> (\<forall>(f, m, v) \<in> set [(title_f, None, PInt 7), (version_f, None, PNone)].
           is_version f \<longrightarrow> v = value_from_object version_f (article (PInt 7) PNone))"
    by (simp add: example_defs model_defs)
  have facts: "value_from_object version_f (article (PInt 7) (PInt 3)) = PInt 3"
    "value_from_object version_f (article (PInt 7) PNone) = PNone"
    "truthy (active ambient_scope (Some InstObj))"
    "attname version_f = ''version''" "qs_where articles = []" "qs_model articles = ''Article''"
    "select_on_save (article (PInt 7) (PInt 3)) = False"
    "select_on_save (article (PInt 7) PNone) = False"
    "qs_rows (qs_filter articles (PkEq 1)) (store [article_row 1 (PInt 5) (PInt 4)]) \<noteq> []"
    by (simp_all add: example_defs model_defs Let_def)
  from version_predicate [OF vf tbl ndef ok1, of ambient_scope 1 None False
      "store [article_row 1 (PInt 5) (PInt 3)]"] facts
  have a: "\<exists>a. UPDATE \<lparr>qs_model = ''Article'', qs_where = [AttrEq ''version'' (PInt 3), PkEq 1]\<rparr> a
          \<in> set (issued (do_update ambient_scope (article (PInt 7) (PInt 3)) articles 1
              [(title_f, None, PInt 7), (version_f, None, PInt 3)] None False)
              (store [article_row 1 (PInt 5) (PInt 3)]))"
    by auto
  from version_predicate [OF vf tbl ndef ok2, of ambient_scope 1 None False
      "store [article_row 1 (PInt 5) (PInt 4)]"] facts
  have b: "(\<exists>a. UPDATE \<lparr>qs_model = ''Article'', qs_where = [PkEq 1]\<rparr> a
          \<in> set (issued (do_update ambient_scope (article (PInt 7) PNone) articles 1
              [(title_f, None, PInt 7), (version_f, None, PNone)] None False)
              (store [article_row 1 (PInt 5) (PInt 4)])))
   \<and> returned (do_update ambient_scope (article (PInt 7) PNone) articles 1
              [(title_f, None, PInt 7), (version_f, None, PNone)] None False)
              (store [article_row 1 (PInt 5) (PInt 4)]) = Inr True"
    by auto
  from a b show ?thesis by blast
qed

lemmas run_defs = obs issued_def do_update_def Model_do_update_def ConcurrentUpdate_init_def
  refresh_from_db_def sql_update_def sql_exists_def sql_select_def logged_def exec_bind Let_def
  setattr_def


lemma do_update_written:
  assumes "get_version_field self = Inr vf"
    and "fmodel vf = qs_model base_qs"
    and "attname vf \<notin> inst_deferred self"
    and "rewrite_values vf (value_from_object vf self) values self = (None, vs, self1)"
  shows "(\<forall>q a. UPDATE q a \<in> set (issued (do_update sc self base_qs pk values uf forced) db)
            \<longrightarrow> a = vs)
     \<and> ((\<forall>m. returned (do_update sc self base_qs pk values uf forced) db
              \<noteq> Inl (ConcurrentUpdate m))
          \<longrightarrow> self_after (do_update sc self base_qs pk values uf forced) db = self1)"
proof -
  let ?P = "do_update sc self base_qs pk values uf forced"
  let ?vqs = "version_qs sc vf (value_from_object vf self) base_qs"
  let ?uf = "if vs \<noteq> [] then uf else None"
  let ?r = "exec (Model_do_update self1 ?vqs pk vs ?uf forced) db"
  from do_update_statements [OF assms, of sc pk uf forced db]
  obtain new rest where st: "statements (store_after ?P db) = statements db @ new @ rest"
    and new: "statements (snd ?r) = statements db @ new"
    and rest: "\<forall>q a. UPDATE q a \<notin> set rest"
    by blast
  have iss: "issued ?P db = new @ rest"
    by (simp add: issued_def st)
  from Model_do_update_statements [of self1 ?vqs pk vs ?uf forced db] new
  have sub: "set new \<subseteq> {UPDATE (qs_filter ?vqs (PkEq pk)) vs, EXISTS (qs_filter ?vqs (PkEq pk))}"
    by auto
  have a: "\<forall>q a. UPDATE q a \<in> set (issued ?P db) \<longrightarrow> a = vs"
    using iss sub rest by auto
  have b: "(\<forall>m. returned ?P db \<noteq> Inl (ConcurrentUpdate m)) \<longrightarrow> self_after ?P db = self1"
    using do_update_unfold [OF assms, of sc pk uf forced db]
    by (auto simp: obs Let_def split: option.splits if_splits)
  from a b show ?thesis by blast
qed










text \<open>
  C7 (as the code has it). An update that targets the table declaring the version
  field, on an instance whose version attribute is deferred, is the program that raises
  \<open>RuntimeError\<close> at once: it sends no statement, and the instance and the store are as
  before.
\<close>

theorem deferred_version_rejected:
  assumes vf: "get_version_field self = Inr vf"
    and tbl: "fmodel vf = qs_model base_qs"
    and dfr: "attname vf \<in> inst_deferred self"
  shows "do_update sc self base_qs pk_val values uf forced = Return (Inl RuntimeError, self)
     \<and> returned (do_update sc self base_qs pk_val values uf forced) db = Inl RuntimeError
     \<and> self_after (do_update sc self base_qs pk_val values uf forced) db = self
     \<and> store_after (do_update sc self base_qs pk_val values uf forced) db = db
     \<and> issued (do_update sc self base_qs pk_val values uf forced) db = []"
  using assms by (simp add: do_update_def obs issued_def)

theorem deferred_version_rejected_witness:
  "returned (do_update ambient_scope ((article (PInt 7) (PInt 3))\<lparr>inst_deferred := {''version''}\<rparr>)
      articles 1 [(title_f, None, PInt 7)] None False)
      (store [article_row 1 (PInt 5) (PInt 3)]) = Inl RuntimeError
   \<and> store_after (do_update ambient_scope ((article (PInt 7) (PInt 3))\<lparr>inst_deferred := {''version''}\<rparr>)
      articles 1 [(title_f, None, PInt 7)] None False)
      (store [article_row 1 (PInt 5) (PInt 3)]) = store [article_row 1 (PInt 5) (PInt 3)]"
proof -
  let ?self = "(article (PInt 7) (PInt 3))\<lparr>inst_deferred := {''version''}\<rparr>"
  have vf: "get_version_field ?self = Inr version_f"
    by (simp add: example_defs model_defs)
  have tbl: "fmodel version_f = qs_model articles"
    by (simp add: example_defs)
  have dfr: "attname version_f \<in> inst_deferred ?self"
    by (simp add: example_defs)
  from deferred_version_rejected [OF vf tbl dfr] show ?thesis by blast
qed

text \<open>
  The claim as written fails: the check for a deferred version comes after the
  delegation of calls for other tables. For an instance of \<open>Article\<close> with the version
  deferred, the call for the parent table \<open>Page\<close> raises nothing, returns \<open>True\<close> and
  sends its \<open>UPDATE\<close>.
\<close>

theorem deferred_version_other_table_written:
  "attname version_f \<in> inst_deferred ((article (PInt 7) (PInt 3))\<lparr>inst_deferred := {''version''}\<rparr>)
   \<and> returned (do_update ambient_scope ((article (PInt 7) (PInt 3))\<lparr>inst_deferred := {''version''}\<rparr>)
        pages 1 [(slug_f, None, PInt 9)] None False)
        (site [article_row 1 PNone PNone] [article_row 1 (PInt 5) (PInt 3)]) = Inr True
   \<and> issued (do_update ambient_scope ((article (PInt 7) (PInt 3))\<lparr>inst_deferred := {''version''}\<rparr>)
        pages 1 [(slug_f, None, PInt 9)] None False)
        (site [article_row 1 PNone PNone] [article_row 1 (PInt 5) (PInt 3)])
      = [UPDATE \<lparr>qs_model = ''Page'', qs_where = [PkEq 1]\<rparr> [(slug_f, None, Const (PInt 9))]]"
  by (simp add: run_defs example_defs model_defs)

text \<open>
  C8. When the version field is declared by another model than the one the call
  targets (a call for another table of a multi-table hierarchy), \<open>_do_update\<close> is the
  framework's update with the arguments as given: the same queryset, the values as
  staged, the same \<open>update_fields\<close>. It returns what the framework returns, raises
  nothing, leaves the instance as it is, and every \<open>UPDATE\<close> it sends has only the
  conditions of \<open>base_qs\<close> and the primary key and writes the staged values.
\<close>

theorem other_tables_delegated:
  assumes vf: "get_version_field self = Inr vf"
    and other: "fmodel vf \<noteq> qs_model base_qs"
  shows "do_update sc self base_qs pk_val values uf forced
         = bind_io (Model_do_update self base_qs pk_val
                      (map (\<lambda>(f, m, v). (f, m, Const v)) values) uf forced)
             (\<lambda>updated. Return (Inr updated, self))
     \<and> returned (do_update sc self base_qs pk_val values uf forced) db
         = Inr (fst (exec (Model_do_update self base_qs pk_val
                      (map (\<lambda>(f, m, v). (f, m, Const v)) values) uf forced) db))
     \<and> self_after (do_update sc self base_qs pk_val values uf forced) db = self
     \<and> store_after (do_update sc self base_qs pk_val values uf forced) db
         = snd (exec (Model_do_update self base_qs pk_val
                      (map (\<lambda>(f, m, v). (f, m, Const v)) values) uf forced) db)
     \<and> (\<forall>q a. UPDATE q a \<in> set (issued (do_update sc self base_qs pk_val values uf forced) db)
           \<longrightarrow> q = qs_filter base_qs (PkEq pk_val)
               \<and> a = map (\<lambda>(f, m, v). (f, m, Const v)) values)"
proof -
  let ?M = "Model_do_update self base_qs pk_val (map (\<lambda>(f, m, v). (f, m, Const v)) values) uf forced"
  let ?P = "do_update sc self base_qs pk_val values uf forced"
  have d: "?P = bind_io ?M (\<lambda>updated. Return (Inr updated, self))"
    using assms by (simp add: do_update_def)
  have e: "exec ?P db = ((Inr (fst (exec ?M db)), self), snd (exec ?M db))"
    by (simp add: d exec_bind)
  from Model_do_update_statements [of self base_qs pk_val _ uf forced db]
  obtain new where new: "statements (snd (exec ?M db)) = statements db @ new"
    and sub: "set new \<subseteq> {UPDATE (qs_filter base_qs (PkEq pk_val))
                             (map (\<lambda>(f, m, v). (f, m, Const v)) values),
                          EXISTS (qs_filter base_qs (PkEq pk_val))}"
    by blast
  have iss: "issued ?P db = new"
    by (simp add: issued_def store_after_def e new)
  have u: "\<forall>q a. UPDATE q a \<in> set (issued ?P db)
           \<longrightarrow> q = qs_filter base_qs (PkEq pk_val) \<and> a = map (\<lambda>(f, m, v). (f, m, Const v)) values"
    using iss sub by auto
  from d e u show ?thesis by (simp add: obs)
qed

theorem other_tables_delegated_witness:
  "returned (do_update ambient_scope (article (PInt 7) (PInt 3)) pages 1
      [(slug_f, None, PInt 9)] None False)
      (site [article_row 1 PNone PNone] [article_row 1 (PInt 5) (PInt 8)]) = Inr True
   \<and> self_after (do_update ambient_scope (article (PInt 7) (PInt 3)) pages 1
      [(slug_f, None, PInt 9)] None False)
      (site [article_row 1 PNone PNone] [article_row 1 (PInt 5) (PInt 8)])
     = article (PInt 7) (PInt 3)
   \<and> (\<exists>a. UPDATE \<lparr>qs_model = ''Page'', qs_where = [PkEq 1]\<rparr> a
         \<in> set (issued (do_update ambient_scope (article (PInt 7) (PInt 3)) pages 1
               [(slug_f, None, PInt 9)] None False)
               (site [article_row 1 PNone PNone] [article_row 1 (PInt 5) (PInt 8)])))"
proof -
  let ?self = "article (PInt 7) (PInt 3)"
  let ?db = "site [article_row 1 PNone PNone] [article_row 1 (PInt 5) (PInt 8)]"
  have vf: "get_version_field ?self = Inr version_f"
    by (simp add: example_defs model_defs)
  have other: "fmodel version_f \<noteq> qs_model pages"
    by (simp add: example_defs)
  have hit: "fst (exec (Model_do_update ?self pages 1
                (map (\<lambda>(f, m, v). (f, m, Const v)) [(slug_f, None, PInt 9)]) None False) ?db)"
    by (simp add: run_defs example_defs model_defs)
  have sent: "\<exists>q a. issued (do_update ambient_scope ?self pages 1
               [(slug_f, None, PInt 9)] None False) ?db = [UPDATE q a]"
    by (simp add: run_defs example_defs model_defs)
  have q: "qs_filter pages (PkEq 1) = \<lparr>qs_model = ''Page'', qs_where = [PkEq 1]\<rparr>"
    by (simp add: example_defs model_defs)
  from other_tables_delegated [OF vf other, of ambient_scope 1 "[(slug_f, None, PInt 9)]" None False ?db]
    hit sent q
  show ?thesis by auto
qed

lemma tables_sql_insert [simp]:
  "tables (sql_insert t r db) = (tables db)(t := tables db t @ [r])"
  by (simp add: sql_insert_def)

lemma statements_sql_insert [simp]:
  "statements (sql_insert t r db) = statements db @ [INSERT t r]"
  by (simp add: sql_insert_def)

text \<open>
  C9 (as the code has it). An insert of a record whose version attribute is \<open>None\<close>
  first sets the attribute to the field's default and then inserts, so the row added
  holds the default in the version column; the default is \<open>0\<close> for a version field
  declared without a \<open>default\<close> argument and the declared value otherwise. With a
  version that is not \<open>None\<close> the instance is left as it is and the row holds that
  version. The one statement sent is the \<open>INSERT\<close> of that row.
\<close>

theorem insert_default:
  assumes vf: "get_version_field self = Inr vf"
    and col: "attname vf \<in> set (map attname flds)"
  shows "(\<exists>r. tables (store_after (do_insert self manager flds) db) manager
                = tables db manager @ [r]
            \<and> issued (do_insert self manager flds) db = [INSERT manager r]
            \<and> r_cols r (attname vf)
                = (if value_from_object vf self = PNone then fdefault vf
                   else value_from_object vf self))
     \<and> self_after (do_insert self manager flds) db
         = (if value_from_object vf self = PNone
            then setattr self (attname vf) (fdefault vf) else self)
     \<and> fdefault (VersionField name mdl kwargs)
         = (case kwargs ''default'' of None \<Rightarrow> PInt 0 | Some d \<Rightarrow> d)"
  using assms
  by (auto simp: do_insert_def Model_do_insert_def obs issued_def exec_bind Let_def
        value_from_object_def VersionField_def VersionField_init_def setdefault_def
        split: option.splits)

theorem insert_default_witness:
  "(\<exists>r. tables (store_after (do_insert (article (PInt 7) PNone) ''Article'' [title_f, version_f])
              (store [])) ''Article'' = [r]
        \<and> r_cols r ''version'' = PInt 0)
   \<and> (\<exists>r. tables (store_after (do_insert (article (PInt 7) (PInt 4)) ''Article'' [title_f, version_f])
              (store [])) ''Article'' = [r]
        \<and> r_cols r ''version'' = PInt 4)
   \<and> self_after (do_insert (article (PInt 7) (PInt 4)) ''Article'' [title_f, version_f]) (store [])
       = article (PInt 7) (PInt 4)"
proof -
  have vf: "get_version_field (article t v) = Inr version_f" for t v
    by (simp add: example_defs model_defs)
  have col: "attname version_f \<in> set (map attname [title_f, version_f])"
    by (simp add: example_defs)
  have facts: "value_from_object version_f (article (PInt 7) PNone) = PNone"
    "value_from_object version_f (article (PInt 7) (PInt 4)) = PInt 4"
    "attname version_f = ''version''" "fdefault version_f = PInt 0"
    "tables (store []) ''Article'' = []"
    by (simp_all add: example_defs model_defs)
  from insert_default [OF vf [of "PInt 7" PNone] col, of "''Article''" "store []" "''version''" "''Article''" Map.empty] facts
  have a: "\<exists>r. tables (store_after (do_insert (article (PInt 7) PNone) ''Article'' [title_f, version_f])
              (store [])) ''Article'' = [r] \<and> r_cols r ''version'' = PInt 0"
    by auto
  from insert_default [OF vf [of "PInt 7" "PInt 4"] col, of "''Article''" "store []" "''version''" "''Article''" Map.empty] facts
  have b: "(\<exists>r. tables (store_after (do_insert (article (PInt 7) (PInt 4)) ''Article'' [title_f, version_f])
              (store [])) ''Article'' = [r] \<and> r_cols r ''version'' = PInt 4)
    \<and> self_after (do_insert (article (PInt 7) (PInt 4)) ''Article'' [title_f, version_f]) (store [])
       = article (PInt 7) (PInt 4)"
    by auto
  from a b show ?thesis by blast
qed

text \<open>
  The claim as written fails: a version field declared with \<open>default=7\<close> keeps that
  default, and a record inserted with version \<open>None\<close> is stored with version \<open>7\<close>.
\<close>

theorem insert_declared_default:
  "fdefault (VersionField ''version'' ''Article'' [''default'' \<mapsto> PInt 7]) = PInt 7
   \<and> map (\<lambda>r. r_cols r ''version'')
        (tables (store_after
           (do_insert ((article (PInt 1) PNone)
                \<lparr>inst_fields := [title_f, VersionField ''version'' ''Article'' [''default'' \<mapsto> PInt 7]]\<rparr>)
              ''Article'' [title_f, VersionField ''version'' ''Article'' [''default'' \<mapsto> PInt 7]])
           (store [])) ''Article'')
      = [PInt 7]"
  by (simp add: do_insert_def Model_do_insert_def obs exec_bind Let_def example_defs model_defs)

lemma qs_rows_version_qs_miss:
  assumes "qs_rows (qs_filter base_qs (PkEq pk)) db = []"
  shows "qs_rows (qs_filter (version_qs sc vf cv base_qs) (PkEq pk)) db = []"
  using assms
  by (auto simp: qs_rows_def qs_filter_def version_qs_def selected_def filter_empty_conv)

text \<open>
  C10 (as the code has it). In an update with a client version \<open>c\<close> whose write-value
  list stages the version, the instance's version is set to \<open>c + 1\<close> before the
  framework's update is called: the call is the framework's update followed by the
  conflict check, both on the instance as advanced, and on every store it ends with the
  instance's version at \<open>c + 1\<close> unless \<open>ConcurrentUpdate\<close> refreshed the instance.
  When no row with the primary key exists, the call returns \<open>False\<close>, changes no table,
  and leaves the instance's version at \<open>c + 1\<close>.
\<close>

theorem version_advanced_before_write:
  assumes vf: "get_version_field self = Inr vf"
    and tbl: "fmodel vf = qs_model base_qs"
    and ndef: "attname vf \<notin> inst_deferred self"
    and cv: "value_from_object vf self = PInt c"
    and ok: "\<forall>(f, m, v) \<in> set values. is_version f \<longrightarrow> v = PInt c"
    and staged: "\<exists>(f, m, v) \<in> set values. is_version f"
  shows "do_update sc self base_qs pk_val values uf forced
         = bind_io (Model_do_update (setattr self (attname vf) (PInt (c + 1)))
                      (version_qs sc vf (PInt c) base_qs) pk_val
                      (map (\<lambda>(f, m, v). (f, m, Const (if is_version f then PInt (c + 1) else v)))
                         values)
                      uf forced)
             (\<lambda>updated.
                if \<not> updated then
                  Exists (qs_filter base_qs (PkEq pk_val)) (\<lambda>found.
                    if found then
                      bind_io (ConcurrentUpdate_init (setattr self (attname vf) (PInt (c + 1))))
                        (\<lambda>e. Return (Inl e,
                               raised_model e (setattr self (attname vf) (PInt (c + 1)))))
                    else Return (Inr updated, setattr self (attname vf) (PInt (c + 1))))
                else Return (Inr updated, setattr self (attname vf) (PInt (c + 1))))
     \<and> ((\<forall>m. returned (do_update sc self base_qs pk_val values uf forced) db
               \<noteq> Inl (ConcurrentUpdate m)) \<longrightarrow>
          self_after (do_update sc self base_qs pk_val values uf forced) db
            = setattr self (attname vf) (PInt (c + 1)))
     \<and> (qs_rows (qs_filter base_qs (PkEq pk_val)) db = [] \<longrightarrow>
          returned (do_update sc self base_qs pk_val values uf forced) db = Inr False
        \<and> self_after (do_update sc self base_qs pk_val values uf forced) db
            = setattr self (attname vf) (PInt (c + 1))
        \<and> inst_attrs (self_after (do_update sc self base_qs pk_val values uf forced) db)
             (attname vf) = PInt (c + 1)
        \<and> tables (store_after (do_update sc self base_qs pk_val values uf forced) db)
            = tables db)"
proof -
  let ?cv = "value_from_object vf self"
  let ?P = "do_update sc self base_qs pk_val values uf forced"
  let ?self1 = "setattr self (attname vf) (PInt (c + 1))"
  let ?vqs = "version_qs sc vf ?cv base_qs"
  have ok': "?cv = PNone \<or> (\<forall>(f, m, v) \<in> set values. is_version f \<longrightarrow> v = ?cv)"
    using ok cv by auto
  have e: "fst (rewrite_values vf ?cv values self) = None"
    by (rule rewrite_values_ok [OF ok'])
  have s: "snd (snd (rewrite_values vf ?cv values self)) = ?self1"
    using rewrite_values_self_client [OF ok cv, of vf self] staged by simp
  let ?vs = "map (\<lambda>(f, m, v). (f, m, Const (if is_version f then PInt (c + 1) else v))) values"
  have w: "fst (snd (rewrite_values vf ?cv values self)) = ?vs"
    using rewrite_values_written [OF ok', of vf self] ok by (auto simp: case_prod_beta)
  have rv: "rewrite_values vf ?cv values self = (None, ?vs, ?self1)"
    using e w s by (cases "rewrite_values vf ?cv values self") simp
  have ne: "?vs \<noteq> []" using staged by auto
  let ?uf = "if ?vs \<noteq> [] then uf else None"
  have prog: "?P = bind_io (Model_do_update ?self1 (version_qs sc vf (PInt c) base_qs) pk_val ?vs
                      uf forced)
             (\<lambda>updated.
                if \<not> updated then
                  Exists (qs_filter base_qs (PkEq pk_val)) (\<lambda>found.
                    if found then
                      bind_io (ConcurrentUpdate_init ?self1)
                        (\<lambda>e. Return (Inl e, raised_model e ?self1))
                    else Return (Inr updated, ?self1))
                else Return (Inr updated, ?self1))"
    using vf tbl ndef rv ne cv by (simp add: do_update_def Let_def)
  have kept: "(\<forall>m. returned ?P db \<noteq> Inl (ConcurrentUpdate m)) \<longrightarrow> self_after ?P db = ?self1"
    using do_update_written [OF vf tbl ndef rv, of sc pk_val uf forced db] by blast
  have gone: "returned ?P db = Inr False \<and> self_after ?P db = ?self1
        \<and> inst_attrs (self_after ?P db) (attname vf) = PInt (c + 1)
        \<and> tables (store_after ?P db) = tables db"
    if g: "qs_rows (qs_filter base_qs (PkEq pk_val)) db = []"
  proof -
    let ?r = "exec (Model_do_update ?self1 ?vqs pk_val ?vs ?uf forced) db"
    have zero: "qs_rows (qs_filter ?vqs (PkEq pk_val)) db = []"
      by (rule qs_rows_version_qs_miss [OF g])
    have res: "\<not> fst ?r"
      using Model_do_update_result [of ?vs ?uf ?self1 ?vqs pk_val forced db] zero by simp
    have tabs: "tables (snd ?r) = tables db"
      using Model_do_update_miss [OF zero] by simp
    have rows: "qs_rows (qs_filter base_qs (PkEq pk_val)) (snd ?r) = []"
      using qs_rows_cong [OF tabs] g by simp
    from do_update_unfold [OF vf tbl ndef rv, of sc pk_val uf forced db] res rows tabs
    show ?thesis by (simp add: obs Let_def)
  qed
  from prog kept gone show ?thesis by blast
qed

theorem version_advanced_before_write_witness:
  "returned (do_update ambient_scope (article (PInt 7) (PInt 3)) articles 1
      [(title_f, None, PInt 7), (version_f, None, PInt 3)] None False) (store []) = Inr False
   \<and> inst_attrs (self_after (do_update ambient_scope (article (PInt 7) (PInt 3)) articles 1
      [(title_f, None, PInt 7), (version_f, None, PInt 3)] None False) (store [])) ''version''
     = PInt 4"
proof -
  have vf: "get_version_field (article (PInt 7) (PInt 3)) = Inr version_f"
    by (simp add: example_defs model_defs)
  have tbl: "fmodel version_f = qs_model articles"
    by (simp add: example_defs)
  have ndef: "attname version_f \<notin> inst_deferred (article (PInt 7) (PInt 3))"
    by (simp add: example_defs)
  have cv: "value_from_object version_f (article (PInt 7) (PInt 3)) = PInt 3"
    by (simp add: example_defs model_defs)
  have ok: "\<forall>(f, m, v) \<in> set [(title_f, None, PInt 7), (version_f, None, PInt 3)].
              is_version f \<longrightarrow> v = PInt 3"
    by (simp add: example_defs)
  have staged: "\<exists>(f, m, v) \<in> set [(title_f, None, PInt 7), (version_f, None, PInt 3)]. is_version f"
    by (simp add: example_defs)
  have gone: "qs_rows (qs_filter articles (PkEq 1)) (store []) = []"
    by (simp add: example_defs model_defs)
  have an: "attname version_f = ''version''" by (simp add: example_defs)
  note adv = version_advanced_before_write [OF vf tbl ndef cv ok staged, of ambient_scope 1 None
      False "store []"]
  from adv [THEN conjunct2, THEN conjunct2] gone an
  show ?thesis by simp
qed

text \<open>
  The claim as written fails: an update with client version \<open>3\<close> whose write-value list
  leaves the version out (a save with \<open>update_fields\<close> naming other fields) does not
  touch the instance's version.
\<close>

theorem version_kept_when_not_staged:
  "value_from_object version_f (article (PInt 7) (PInt 3)) = PInt 3
   \<and> returned (do_update ambient_scope (article (PInt 7) (PInt 3)) articles 1
        [(title_f, None, PInt 7)] (Some [''title'']) False) (store []) = Inr False
   \<and> inst_attrs (self_after (do_update ambient_scope (article (PInt 7) (PInt 3)) articles 1
        [(title_f, None, PInt 7)] (Some [''title'']) False) (store [])) ''version'' = PInt 3"
  by (simp add: run_defs example_defs model_defs)

text \<open>Interleaving: who wins a race, and that both programs finish.\<close>

lemma settles_Return: "settles S Q (Return a) \<Longrightarrow> Q a"
  by (erule settles.cases) auto

lemma settles_next:
  assumes "settles S Q p" and "db \<in> S"
  shows "snd (step p db) \<in> S \<and> settles S Q (fst (step p db))"
  using assms by (cases rule: settles.cases) (auto intro: settles_done)

lemma races_not_Return: "races S0 S1 W L p \<Longrightarrow> p \<noteq> Return a"
  by (erule races.cases) auto

lemma races_fresh:
  assumes "races S0 S1 W L p" and "db \<in> S0"
  shows "(snd (step p db) \<in> S0 \<and> races S0 S1 W L (fst (step p db)))
        \<or> (snd (step p db) \<in> S1 \<and> (\<exists>a. fst (step p db) = Return a \<and> W a))"
  using assms by (cases rule: races.cases) auto

lemma races_late:
  assumes "races S0 S1 W L p" and "db \<in> S1"
  shows "snd (step p db) \<in> S1 \<and> settles S1 L (fst (step p db))"
  using assms by (cases rule: races.cases) auto

lemma race_inv_interleave:
  assumes "race_inv S0 S1 W L (p, q, db)"
  shows "race_inv S0 S1 W L (interleave sched p q db)"
  using assms
proof (induction sched arbitrary: p q db)
  case Nil
  then show ?case by simp
next
  case (Cons b bs)
  have "race_inv S0 S1 W L
          (if b then (fst (step p db), q, snd (step p db))
           else (p, fst (step q db), snd (step q db)))"
  proof (cases b)
    case True
    from Cons.prems consider
      (fresh) "db \<in> S0" "races S0 S1 W L p" "races S0 S1 W L q"
      | (won) a where "db \<in> S1" "p = Return a" "W a" "races S0 S1 W L q \<or> settles S1 L q"
      | (lost) b' where "db \<in> S1" "races S0 S1 W L p \<or> settles S1 L p" "q = Return b'" "W b'"
      by (auto simp: race_inv_def)
    then show ?thesis
    proof cases
      case fresh
      from races_fresh [OF fresh(2,1)] fresh(3) True show ?thesis
        by (auto simp: race_inv_def)
    next
      case won
      then show ?thesis using True by (auto simp: race_inv_def)
    next
      case lost
      from lost(2) have "snd (step p db) \<in> S1 \<and> settles S1 L (fst (step p db))"
        using races_late [OF _ lost(1)] settles_next [OF _ lost(1)] by blast
      then show ?thesis using True lost by (auto simp: race_inv_def)
    qed
  next
    case False
    from Cons.prems consider
      (fresh) "db \<in> S0" "races S0 S1 W L p" "races S0 S1 W L q"
      | (won) a where "db \<in> S1" "p = Return a" "W a" "races S0 S1 W L q \<or> settles S1 L q"
      | (lost) b' where "db \<in> S1" "races S0 S1 W L p \<or> settles S1 L p" "q = Return b'" "W b'"
      by (auto simp: race_inv_def)
    then show ?thesis
    proof cases
      case fresh
      from races_fresh [OF fresh(3,1)] fresh(2) False show ?thesis
        by (auto simp: race_inv_def)
    next
      case won
      from won(4) have "snd (step q db) \<in> S1 \<and> settles S1 L (fst (step q db))"
        using races_late [OF _ won(1)] settles_next [OF _ won(1)] by blast
      then show ?thesis using False won by (auto simp: race_inv_def)
    next
      case lost
      then show ?thesis using False by (auto simp: race_inv_def)
    qed
  qed
  then have "race_inv S0 S1 W L (interleave bs
          (fst (if b then (fst (step p db), q, snd (step p db))
                else (p, fst (step q db), snd (step q db))))
          (fst (snd (if b then (fst (step p db), q, snd (step p db))
                else (p, fst (step q db), snd (step q db)))))
          (snd (snd (if b then (fst (step p db), q, snd (step p db))
                else (p, fst (step q db), snd (step q db))))))"
    using Cons.IH by (cases b) auto
  then show ?case by (cases b) auto
qed

lemma race_outcome:
  assumes "races S0 S1 W L p" and "races S0 S1 W L q" and "db \<in> S0"
    and "interleave sched p q db = (Return a, Return b, db')"
  shows "db' \<in> S1 \<and> ((W a \<and> L b) \<or> (L a \<and> W b))"
proof -
  have "race_inv S0 S1 W L (p, q, db)"
    using assms(1-3) by (simp add: race_inv_def)
  from race_inv_interleave [OF this, of sched] assms(4)
  have "race_inv S0 S1 W L (Return a, Return b, db')" by simp
  then show ?thesis
    by (auto simp: race_inv_def dest: races_not_Return settles_Return)
qed

lemma within_next: "within (Suc n) p \<Longrightarrow> within n (fst (step p db))"
  by (erule within.cases) (auto intro: within_done)

lemma within_zero: "within 0 p \<Longrightarrow> \<exists>a. p = Return a"
  by (erule within.cases) auto

lemma interleave_finishes:
  assumes "within n p" and "within m q"
    and "n \<le> count_list sched True" and "m \<le> count_list sched False"
  shows "\<exists>a b db'. interleave sched p q db = (Return a, Return b, db')"
  using assms
proof (induction sched arbitrary: n m p q db)
  case Nil
  then show ?case using within_zero by fastforce
next
  case (Cons c cs)
  show ?case
  proof (cases c)
    case True
    have "within (n - 1) (fst (step p db))"
    proof (cases n)
      case 0
      with Cons.prems(1) obtain a where "p = Return a" using within_zero by blast
      then show ?thesis using 0 by (simp add: within_done)
    next
      case (Suc k)
      then show ?thesis using Cons.prems(1) within_next by fastforce
    qed
    moreover have "n - 1 \<le> count_list cs True" "m \<le> count_list cs False"
      using Cons.prems(3,4) True by auto
    ultimately show ?thesis
      using Cons.IH [OF _ Cons.prems(2)] True by simp
  next
    case False
    have "within (m - 1) (fst (step q db))"
    proof (cases m)
      case 0
      with Cons.prems(2) obtain a where "q = Return a" using within_zero by blast
      then show ?thesis using 0 by (simp add: within_done)
    next
      case (Suc k)
      then show ?thesis using Cons.prems(2) within_next by fastforce
    qed
    moreover have "n \<le> count_list cs True" "m - 1 \<le> count_list cs False"
      using Cons.prems(3,4) False by auto
    ultimately show ?thesis
      using Cons.IH [OF Cons.prems(1)] False by simp
  qed
qed

text \<open>Statements on a store that holds the record at a given version.\<close>

lemma holds_version_logged [simp]:
  "holds_version t k a x fs (logged st db) = holds_version t k a x fs db"
  by (simp add: holds_version_def)

lemma write_row_column:
  assumes "\<forall>(f, m, e) \<in> set vs. attname f = a \<longrightarrow> eval_expr old e = x"
  shows "write_row old vs cols a = (if \<exists>(f, m, e) \<in> set vs. attname f = a then x else cols a)"
  using assms by (induction old vs cols rule: write_row.induct) auto

lemma find_pk_map:
  assumes "\<And>r. r_pk (g r) = r_pk r"
  shows "(find (\<lambda>r. r_pk r = k) (map g t) = None) = (find (\<lambda>r. r_pk r = k) t = None)"
  using assms by (auto simp: find_None_iff)

lemma db_value_update:
  assumes "db_value (tables db) f k \<noteq> None"
  shows "db_value (tables (snd (sql_update q vs db))) f k \<noteq> None"
proof -
  let ?g = "\<lambda>r. if selected q r then r\<lparr>r_cols := write_row r vs (r_cols r)\<rparr> else r"
  have m: "find (\<lambda>r. r_pk r = k) (map ?g t) = None \<longleftrightarrow> find (\<lambda>r. r_pk r = k) t = None" for t
    by (rule find_pk_map) simp
  have "find (\<lambda>r. r_pk r = k) (tables (snd (sql_update q vs db)) (fmodel f)) = None
        \<longleftrightarrow> find (\<lambda>r. r_pk r = k) (tables db (fmodel f)) = None"
    by (cases "fmodel f = qs_model q") (simp_all add: sql_update_def m)
  then show ?thesis using assms
    by (simp add: db_value_def)
qed

lemma updated_row_kept:
  assumes "r \<in> set (tables db (qs_model q))"
  shows "(if selected q r then r\<lparr>r_cols := write_row r vs (r_cols r)\<rparr> else r)
     \<in> set (tables (snd (sql_update q vs db)) (qs_model q))"
  using assms by (auto simp: sql_update_def)

lemma updated_row_pk:
  assumes "r_pk r = k"
  shows "r_pk (if selected q r then r\<lparr>r_cols := write_row r vs (r_cols r)\<rparr> else r) = k"
  using assms by simp

lemma update_advances:
  assumes s: "holds_version (qs_model q) k a (PInt v) fs db"
    and sel: "\<And>r. selected q r = (r_cols r a = PInt v \<and> r_pk r = k)"
    and wr: "\<And>old cols. write_row old vs cols a = PInt (v + 1)"
  shows "0 < fst (sql_update q vs db)
       \<and> holds_version (qs_model q) k a (PInt (v + 1)) fs (snd (sql_update q vs db))"
proof -
  let ?t = "tables db (qs_model q)"
  from s obtain r where r: "r \<in> set ?t" "r_pk r = k" and all: "\<forall>r \<in> set ?t. r_pk r = k \<longrightarrow> r_cols r a = PInt v"
    and rd: "\<forall>f \<in> set fs. db_value (tables db) f k \<noteq> None"
    by (auto simp: holds_version_def)
  have "selected q r" using r all sel by simp
  then have n: "0 < fst (sql_update q vs db)"
    using r by (auto simp: qs_rows_def filter_empty_conv)
  have rd': "\<forall>f \<in> set fs. db_value (tables (snd (sql_update q vs db))) f k \<noteq> None"
    using rd db_value_update by blast
  have "holds_version (qs_model q) k a (PInt (v + 1)) fs (snd (sql_update q vs db))"
    unfolding holds_version_def
  proof (intro conjI)
    show "\<exists>r \<in> set (tables (snd (sql_update q vs db)) (qs_model q)). r_pk r = k"
      using updated_row_kept [OF r(1), of vs] updated_row_pk [OF r(2), of q vs] by blast
    show "\<forall>r \<in> set (tables (snd (sql_update q vs db)) (qs_model q)).
            r_pk r = k \<longrightarrow> r_cols r a = PInt (v + 1)"
    proof (intro ballI impI)
      fix r' assume in': "r' \<in> set (tables (snd (sql_update q vs db)) (qs_model q))"
        and pk': "r_pk r' = k"
      from in' obtain r0 where r0: "r0 \<in> set ?t"
        and r': "r' = (if selected q r0 then r0\<lparr>r_cols := write_row r0 vs (r_cols r0)\<rparr> else r0)"
        by (auto simp: sql_update_def)
      show "r_cols r' a = PInt (v + 1)"
      proof (cases "selected q r0")
        case True
        then show ?thesis using r' wr by simp
      next
        case False
        then have "r' = r0" using r' by simp
        then have "r_cols r0 a = PInt v" "r_pk r0 = k" using all r0 pk' by auto
        then have "selected q r0" by (simp add: sel)
        with False show ?thesis by simp
      qed
    qed
    show "\<forall>f \<in> set fs. db_value (tables (snd (sql_update q vs db))) f k \<noteq> None"
      by (rule rd')
  qed
  with n show ?thesis by blast
qed

lemma update_misses:
  assumes s: "holds_version (qs_model q) k a (PInt (v + 1)) fs db"
    and sel: "\<And>r. selected q r = (r_cols r a = PInt v \<and> r_pk r = k)"
  shows "fst (sql_update q vs db) = 0
       \<and> holds_version (qs_model q) k a (PInt (v + 1)) fs (snd (sql_update q vs db))"
proof -
  have none: "qs_rows q db = []"
    using s sel by (auto simp: qs_rows_def holds_version_def filter_empty_conv)
  then have "tables (snd (sql_update q vs db)) = tables db"
    by (rule sql_update_miss)
  then show ?thesis using none s by (simp add: holds_version_def)
qed

lemma exists_fresh:
  assumes s: "holds_version (qs_model q) k a (PInt v) fs db"
    and sel: "\<And>r. selected q r = (r_cols r a = PInt v \<and> r_pk r = k)"
  shows "qs_rows q db \<noteq> []"
  using s sel by (auto simp: qs_rows_def holds_version_def filter_empty_conv)

lemma exists_stale:
  assumes s: "holds_version (qs_model q) k a (PInt (v + 1)) fs db"
    and sel: "\<And>r. selected q r = (r_cols r a = PInt v \<and> r_pk r = k)"
  shows "qs_rows q db = []"
  using s sel by (auto simp: qs_rows_def holds_version_def filter_empty_conv)

lemma exists_pk:
  assumes s: "holds_version (qs_model q) k a x fs db"
    and sel: "\<And>r. selected q r = (r_pk r = k)"
  shows "qs_rows q db \<noteq> []"
  using s sel by (auto simp: qs_rows_def holds_version_def filter_empty_conv)

lemma db_value_held:
  assumes s: "holds_version (fmodel f) k (attname f) x fs db"
  shows "db_value (tables db) f k = Some x"
proof -
  from s obtain r where "r \<in> set (tables db (fmodel f))" "r_pk r = k"
    by (auto simp: holds_version_def)
  then obtain r' where f: "find (\<lambda>r. r_pk r = k) (tables db (fmodel f)) = Some r'"
    by (cases "find (\<lambda>r. r_pk r = k) (tables db (fmodel f))") (auto simp: find_None_iff)
  then have "r' \<in> set (tables db (fmodel f))" "r_pk r' = k"
    by (auto simp: find_Some_iff in_set_conv_nth)
  then have "r_cols r' (attname f) = x" using s by (auto simp: holds_version_def)
  then show ?thesis using f by (simp add: db_value_def)
qed

text \<open>Every call ends after at most five statements.\<close>

lemma within_mono: "within n p \<Longrightarrow> within (Suc n) p"
proof (induction rule: within.induct)
  case (within_done n a)
  show ?case by (rule within.within_done)
next
  case (within_step n p)
  show ?case by (rule within.within_step) (rule within_step.IH)
qed

lemma within_le: "within n p \<Longrightarrow> n \<le> m \<Longrightarrow> within m p"
  by (induction m) (auto simp: le_Suc_eq intro: within_mono)

lemma within_Update: "(\<And>n'. within n (k n')) \<Longrightarrow> within (Suc n) (Update q vs k)"
  by (rule within_step) simp

lemma within_Exists: "(\<And>b. within n (k b)) \<Longrightarrow> within (Suc n) (Exists q k)"
  by (rule within_step) simp

lemma within_Select: "(\<And>r. within n (k r)) \<Longrightarrow> within (Suc n) (Select pk fs k)"
  by (rule within_step) simp

lemma within_conflict:
  "within (Suc 0) (bind_io (ConcurrentUpdate_init self1) (\<lambda>e. Return (Inl e, raised_model e self1)))"
  unfolding ConcurrentUpdate_init_def refresh_from_db_def
  by (auto intro!: within_Select within_done split: option.splits)

lemma within_check:
  "within (Suc (Suc 0)) (if \<not> updated then
       Exists bq (\<lambda>found.
         if found then bind_io (ConcurrentUpdate_init self1)
                         (\<lambda>e. Return (Inl e, raised_model e self1))
         else Return (Inr updated, self1))
     else Return (Inr updated, self1))"
proof -
  have "within (Suc (Suc 0)) (Exists bq (\<lambda>found.
         if found then bind_io (ConcurrentUpdate_init self1)
                         (\<lambda>e. Return (Inl e, raised_model e self1))
         else Return (Inr updated, self1)))"
    by (rule within_Exists) (auto intro: within_conflict within_done)
  then show ?thesis by (auto intro: within_done)
qed

lemma step_bind:
  assumes "\<And>a. p \<noteq> Return a"
  shows "step (bind_io p g) db = (bind_io (fst (step p db)) g, snd (step p db))"
  using assms by (cases p) auto

lemma within_bind:
  assumes "within n p" and "\<And>a. within m (g a)"
  shows "within (n + m) (bind_io p g)"
  using assms(1)
proof (induction rule: within.induct)
  case (within_done n a)
  show ?case using assms(2) [of a] by (auto intro: within_le)
next
  case (within_step n p)
  show ?case
  proof (cases "\<exists>a. p = Return a")
    case True
    then obtain a where "p = Return a" by blast
    moreover have "within (Suc n + m) (g a)"
      by (rule within_le [OF assms(2)]) simp
    ultimately show ?thesis by simp
  next
    case False
    then have nr: "p \<noteq> Return a" for a by blast
    have sb: "step (bind_io p g) db = (bind_io (fst (step p db)) g, snd (step p db))" for db
      by (rule step_bind) (rule nr)
    have "within (n + m) (fst (step (bind_io p g) db))" for db
      unfolding sb fst_conv by (rule within_step.IH)
    then have "within (Suc (n + m)) (bind_io p g)"
      by (rule within.within_step)
    then show ?thesis by simp
  qed
qed

lemma within_Model_do_update:
  "within (Suc (Suc (Suc 0))) (Model_do_update self qs pk vs uf forced)"
  unfolding Model_do_update_def Let_def
  by (auto intro!: within_Update within_Exists within_done)

lemma within_do_update: "within 5 (do_update sc self base_qs pk values uf forced)"
proof -
  have five: "(5::nat) = Suc (Suc (Suc 0)) + Suc (Suc 0)" by simp
  have a: "within 5 (bind_io (Model_do_update s q pk vs u forced) (\<lambda>updated.
       if \<not> updated then
         Exists bq (\<lambda>found.
           if found then bind_io (ConcurrentUpdate_init self1)
                           (\<lambda>e. Return (Inl e, raised_model e self1))
           else Return (Inr updated, self1))
       else Return (Inr updated, self1)))" for s q vs u bq self1
    unfolding five by (rule within_bind [OF within_Model_do_update within_check])
  have b: "within 5 (bind_io (Model_do_update s q pk vs u forced)
              (\<lambda>updated. Return (Inr updated, self)))" for s q vs u
    unfolding five by (rule within_bind [OF within_Model_do_update]) (rule within_done)
  show ?thesis
    unfolding do_update_def Let_def
    by (auto intro: a b within_done split: sum.splits prod.splits option.splits)
qed

text \<open>One attempt of a racing pair.\<close>

lemma first_version_field_in:
  "first_version_field fs = Inr f \<Longrightarrow> f \<in> set fs \<and> is_version f"
  by (induction fs) (auto split: if_splits)

lemma conflict_settles:
  assumes tbl: "fmodel vf = t"
    and vf: "vf \<in> set (loaded_fields self1)"
    and names: "distinct (map attname (loaded_fields self1))"
    and rd: "set (loaded_fields self1) \<subseteq> set fs"
    and pk: "inst_pk self1 = k"
  shows "settles (Collect (holds_version t k (attname vf) x fs)) (conflicted (attname vf) x)
           (bind_io (ConcurrentUpdate_init self1) (\<lambda>e. Return (Inl e, raised_model e self1)))"
proof -
  let ?S = "Collect (holds_version t k (attname vf) x fs)"
  let ?L = "conflicted (attname vf) x"
  let ?k = "\<lambda>r. case r of
              None \<Rightarrow> Return (Inl DoesNotExist, self1)
            | Some vals \<Rightarrow>
                Return (Inl (ConcurrentUpdate (foldl (\<lambda>s (a, v). setattr s a v) self1 vals)),
                        foldl (\<lambda>s (a, v). setattr s a v) self1 vals)"
  have prog: "bind_io (ConcurrentUpdate_init self1) (\<lambda>e. Return (Inl e, raised_model e self1))
              = Select k (loaded_fields self1) ?k"
    by (auto simp: ConcurrentUpdate_init_def refresh_from_db_def pk fun_eq_iff split: option.splits)
  have "settles ?S ?L (Select k (loaded_fields self1) ?k)"
  proof (rule settles_step)
    show "Select k (loaded_fields self1) ?k \<noteq> Return a" for a by simp
  next
    fix db assume "db \<in> ?S"
    then have h: "holds_version t k (attname vf) x fs db" by simp
    then have "\<forall>f \<in> set (loaded_fields self1). db_value (tables db) f k \<noteq> None"
      using rd by (auto simp: holds_version_def)
    then obtain vals where fe: "fetch (tables db) k (loaded_fields self1) = Some vals"
      using fetch_total [of "loaded_fields self1" "tables db" k] by auto
    let ?m = "foldl (\<lambda>s (a, v). setattr s a v) self1 vals"
    have "db_value (tables db) vf k = Some (inst_attrs ?m (attname vf))"
      by (rule fetch_refreshed [OF fe names vf])
    moreover have "db_value (tables db) vf k = Some x"
      using db_value_held [of vf k x fs db] h tbl by simp
    ultimately have "inst_attrs ?m (attname vf) = x" by simp
    then have "?L (Inl (ConcurrentUpdate ?m), ?m)"
      by (simp add: conflicted_def)
    then have "settles ?S ?L (Return (Inl (ConcurrentUpdate ?m), ?m))"
      by (rule settles_done)
    then show "snd (step (Select k (loaded_fields self1) ?k) db) \<in> ?S
             \<and> settles ?S ?L (fst (step (Select k (loaded_fields self1) ?k) db))"
      using h fe by simp
  qed
  then show ?thesis by (simp only: prog)
qed

lemma after_write_settles:
  assumes tbl: "fmodel vf = qs_model base_qs"
    and base: "qs_where base_qs = []"
    and vf: "vf \<in> set (loaded_fields self1)"
    and names: "distinct (map attname (loaded_fields self1))"
    and rd: "set (loaded_fields self1) \<subseteq> set fs"
    and pk: "inst_pk self1 = k"
  shows "settles (Collect (holds_version (qs_model base_qs) k (attname vf) x fs))
           (conflicted (attname vf) x) (after_write self1 base_qs k False)"
proof -
  let ?S = "Collect (holds_version (qs_model base_qs) k (attname vf) x fs)"
  let ?L = "conflicted (attname vf) x"
  let ?bq = "qs_filter base_qs (PkEq k)"
  let ?c = "bind_io (ConcurrentUpdate_init self1) (\<lambda>e. Return (Inl e, raised_model e self1))"
  let ?k = "\<lambda>found. if found then ?c else Return (Inr False, self1)"
  have prog: "after_write self1 base_qs k False = Exists ?bq ?k"
    by (simp add: after_write_def)
  have c: "settles ?S ?L ?c"
    by (rule conflict_settles [OF tbl vf names rd pk])
  have sel: "selected ?bq r = (r_pk r = k)" for r
    by (simp add: selected_def qs_filter_def base)
  have m: "qs_model ?bq = qs_model base_qs" by (simp add: qs_filter_def)
  have "settles ?S ?L (Exists ?bq ?k)"
  proof (rule settles_step)
    show "Exists ?bq ?k \<noteq> Return a" for a by simp
  next
    fix db assume "db \<in> ?S"
    then have h: "holds_version (qs_model ?bq) k (attname vf) x fs db" by (simp add: m)
    have "qs_rows ?bq db \<noteq> []"
      by (rule exists_pk [OF h sel])
    then show "snd (step (Exists ?bq ?k) db) \<in> ?S \<and> settles ?S ?L (fst (step (Exists ?bq ?k) db))"
      using h c by (simp add: m)
  qed
  then show ?thesis by (simp only: prog)
qed

lemma after_write_True: "after_write self1 base_qs k True = Return (Inr True, self1)"
  by (simp add: after_write_def)

lemma versioned_selected:
  assumes "qs_where base_qs = []"
  shows "selected (qs_filter (qs_filter base_qs (AttrEq a x)) (PkEq k)) r
         = (r_cols r a = x \<and> r_pk r = k)"
  using assms by (simp add: selected_def qs_filter_def)

lemma versioned_model:
  "qs_model (qs_filter (qs_filter base_qs c) d) = qs_model base_qs"
  by (simp add: qs_filter_def)

lemma recheck_settles:
  assumes tbl: "fmodel vf = qs_model base_qs"
    and base: "qs_where base_qs = []"
    and vf: "vf \<in> set (loaded_fields self1)"
    and names: "distinct (map attname (loaded_fields self1))"
    and rd: "set (loaded_fields self1) \<subseteq> set fs"
    and pk: "inst_pk self1 = k"
  shows "settles (Collect (holds_version (qs_model base_qs) k (attname vf) (PInt (v + 1)) fs))
           (conflicted (attname vf) (PInt (v + 1)))
           (Exists (qs_filter (qs_filter base_qs (AttrEq (attname vf) (PInt v))) (PkEq k))
              (after_write self1 base_qs k))"
proof -
  let ?S = "Collect (holds_version (qs_model base_qs) k (attname vf) (PInt (v + 1)) fs)"
  let ?L = "conflicted (attname vf) (PInt (v + 1))"
  let ?q = "qs_filter (qs_filter base_qs (AttrEq (attname vf) (PInt v))) (PkEq k)"
  let ?AW = "after_write self1 base_qs k"
  note sel = versioned_selected [OF base, of "attname vf" "PInt v" k]
  note m = versioned_model [of base_qs "AttrEq (attname vf) (PInt v)" "PkEq k"]
  have aw: "settles ?S ?L (?AW False)"
    by (rule after_write_settles [OF tbl base vf names rd pk])
  show ?thesis
  proof (rule settles_step)
    show "Exists ?q ?AW \<noteq> Return a" for a by simp
  next
    fix db assume "db \<in> ?S"
    then have h: "holds_version (qs_model ?q) k (attname vf) (PInt (v + 1)) fs db"
      by (simp add: m)
    have "qs_rows ?q db = []"
      by (rule exists_stale [OF h sel])
    then show "snd (step (Exists ?q ?AW) db) \<in> ?S \<and> settles ?S ?L (fst (step (Exists ?q ?AW) db))"
      using h aw by (simp add: m)
  qed
qed

lemma update_races:
  assumes tbl: "fmodel vf = qs_model base_qs"
    and base: "qs_where base_qs = []"
    and vf: "vf \<in> set (loaded_fields self1)"
    and names: "distinct (map attname (loaded_fields self1))"
    and rd: "set (loaded_fields self1) \<subseteq> set fs"
    and pk: "inst_pk self1 = k"
    and wr: "\<And>old cols. write_row old vs cols (attname vf) = PInt (v + 1)"
    and won: "\<And>n. 0 < n \<Longrightarrow> cont n = after_write self1 base_qs k True"
    and lost: "settles (Collect (holds_version (qs_model base_qs) k (attname vf) (PInt (v + 1)) fs))
                 (conflicted (attname vf) (PInt (v + 1))) (cont 0)"
  shows "races (Collect (holds_version (qs_model base_qs) k (attname vf) (PInt v) fs))
           (Collect (holds_version (qs_model base_qs) k (attname vf) (PInt (v + 1)) fs))
           succeeded (conflicted (attname vf) (PInt (v + 1)))
           (Update (qs_filter (qs_filter base_qs (AttrEq (attname vf) (PInt v))) (PkEq k)) vs cont)"
proof -
  let ?S0 = "Collect (holds_version (qs_model base_qs) k (attname vf) (PInt v) fs)"
  let ?S1 = "Collect (holds_version (qs_model base_qs) k (attname vf) (PInt (v + 1)) fs)"
  let ?L = "conflicted (attname vf) (PInt (v + 1))"
  let ?q = "qs_filter (qs_filter base_qs (AttrEq (attname vf) (PInt v))) (PkEq k)"
  note sel = versioned_selected [OF base, of "attname vf" "PInt v" k]
  note m = versioned_model [of base_qs "AttrEq (attname vf) (PInt v)" "PkEq k"]
  show ?thesis
  proof (rule races_step)
    show "Update ?q vs cont \<noteq> Return a" for a by simp
  next
    fix db assume "db \<in> ?S0"
    then have h: "holds_version (qs_model ?q) k (attname vf) (PInt v) fs db"
      by (simp add: m)
    from update_advances [OF h sel wr]
    have n: "0 < fst (sql_update ?q vs db)"
      and s1: "holds_version (qs_model ?q) k (attname vf) (PInt (v + 1)) fs (snd (sql_update ?q vs db))"
      by blast+
    have "cont (fst (sql_update ?q vs db)) = Return (Inr True, self1)"
      using won [OF n] by (simp add: after_write_True)
    moreover have "succeeded (Inr True, self1)" by (simp add: succeeded_def)
    ultimately have "snd (step (Update ?q vs cont) db) \<in> ?S1
        \<and> (\<exists>a. fst (step (Update ?q vs cont) db) = Return a \<and> succeeded a)"
      using s1 by (simp add: m)
    then show "(snd (step (Update ?q vs cont) db) \<in> ?S0
           \<and> races ?S0 ?S1 succeeded ?L (fst (step (Update ?q vs cont) db)))
        \<or> (snd (step (Update ?q vs cont) db) \<in> ?S1
           \<and> (\<exists>a. fst (step (Update ?q vs cont) db) = Return a \<and> succeeded a))"
      by (rule disjI2)
  next
    fix db assume "db \<in> ?S1"
    then have h: "holds_version (qs_model ?q) k (attname vf) (PInt (v + 1)) fs db"
      by (simp add: m)
    from update_misses [OF h sel, of vs]
    have n: "fst (sql_update ?q vs db) = 0"
      and s1: "holds_version (qs_model ?q) k (attname vf) (PInt (v + 1)) fs (snd (sql_update ?q vs db))"
      by blast+
    show "snd (step (Update ?q vs cont) db) \<in> ?S1
        \<and> settles ?S1 ?L (fst (step (Update ?q vs cont) db))"
      using n s1 lost by (simp add: m)
  qed
qed

lemma select_on_save_races:
  assumes tbl: "fmodel vf = qs_model base_qs"
    and base: "qs_where base_qs = []"
    and vf: "vf \<in> set (loaded_fields self1)"
    and names: "distinct (map attname (loaded_fields self1))"
    and rd: "set (loaded_fields self1) \<subseteq> set fs"
    and pk: "inst_pk self1 = k"
    and wr: "\<And>old cols. write_row old vs cols (attname vf) = PInt (v + 1)"
  shows "races (Collect (holds_version (qs_model base_qs) k (attname vf) (PInt v) fs))
           (Collect (holds_version (qs_model base_qs) k (attname vf) (PInt (v + 1)) fs))
           succeeded (conflicted (attname vf) (PInt (v + 1)))
           (Exists (qs_filter (qs_filter base_qs (AttrEq (attname vf) (PInt v))) (PkEq k))
              (\<lambda>found. if found then
                 Update (qs_filter (qs_filter base_qs (AttrEq (attname vf) (PInt v))) (PkEq k)) vs
                   (\<lambda>n. if 0 < n then after_write self1 base_qs k True
                        else Exists (qs_filter (qs_filter base_qs (AttrEq (attname vf) (PInt v)))
                                       (PkEq k)) (after_write self1 base_qs k))
               else after_write self1 base_qs k False))"
proof -
  let ?S0 = "Collect (holds_version (qs_model base_qs) k (attname vf) (PInt v) fs)"
  let ?S1 = "Collect (holds_version (qs_model base_qs) k (attname vf) (PInt (v + 1)) fs)"
  let ?L = "conflicted (attname vf) (PInt (v + 1))"
  let ?q = "qs_filter (qs_filter base_qs (AttrEq (attname vf) (PInt v))) (PkEq k)"
  let ?AW = "after_write self1 base_qs k"
  let ?c = "\<lambda>n::nat. if 0 < n then ?AW True else Exists ?q ?AW"
  let ?k = "\<lambda>found. if found then Update ?q vs ?c else ?AW False"
  note sel = versioned_selected [OF base, of "attname vf" "PInt v" k]
  note m = versioned_model [of base_qs "AttrEq (attname vf) (PInt v)" "PkEq k"]
  have re: "settles ?S1 ?L (?c (0::nat))"
    using recheck_settles [OF tbl base vf names rd pk, of v] by simp
  have up: "races ?S0 ?S1 succeeded ?L (Update ?q vs ?c)"
  proof (rule update_races [where cont = "?c", OF tbl base vf names rd pk wr])
    show "?c n = ?AW True" if "0 < n" for n using that by simp
    show "settles ?S1 ?L (?c 0)" by (rule re)
  qed
  have aw: "settles ?S1 ?L (?AW False)"
    by (rule after_write_settles [OF tbl base vf names rd pk])
  show ?thesis
  proof (rule races_step)
    show "Exists ?q ?k \<noteq> Return a" for a by simp
  next
    fix db assume "db \<in> ?S0"
    then have h: "holds_version (qs_model ?q) k (attname vf) (PInt v) fs db"
      by (simp add: m)
    have "qs_rows ?q db \<noteq> []"
      by (rule exists_fresh [OF h sel])
    then have "snd (step (Exists ?q ?k) db) \<in> ?S0
           \<and> races ?S0 ?S1 succeeded ?L (fst (step (Exists ?q ?k) db))"
      using h up by (simp add: m)
    then show "(snd (step (Exists ?q ?k) db) \<in> ?S0
           \<and> races ?S0 ?S1 succeeded ?L (fst (step (Exists ?q ?k) db)))
        \<or> (snd (step (Exists ?q ?k) db) \<in> ?S1
           \<and> (\<exists>a. fst (step (Exists ?q ?k) db) = Return a \<and> succeeded a))"
      by (rule disjI1)
  next
    fix db assume "db \<in> ?S1"
    then have h: "holds_version (qs_model ?q) k (attname vf) (PInt (v + 1)) fs db"
      by (simp add: m)
    have "qs_rows ?q db = []"
      by (rule exists_stale [OF h sel])
    then show "snd (step (Exists ?q ?k) db) \<in> ?S1
        \<and> settles ?S1 ?L (fst (step (Exists ?q ?k) db))"
      using h aw by (simp add: m)
  qed
qed

lemma Model_do_update_then:
  assumes "vs \<noteq> []"
  shows "bind_io (Model_do_update s q0 k vs uf forced) g
    = (if select_on_save s \<and> \<not> forced then
         Exists (qs_filter q0 (PkEq k)) (\<lambda>found.
           if found then
             Update (qs_filter q0 (PkEq k)) vs
               (\<lambda>n. if 0 < n then g True else Exists (qs_filter q0 (PkEq k)) g)
           else g False)
       else Update (qs_filter q0 (PkEq k)) vs (\<lambda>n. g (0 < n)))"
  using assms by (auto simp: Model_do_update_def Let_def fun_eq_iff)

lemma do_update_program:
  assumes pr: "presents sc self base_qs k values vf v"
  shows "do_update sc self base_qs k values uf forced
    = bind_io (Model_do_update (setattr self (attname vf) (PInt (v + 1)))
                 (qs_filter base_qs (AttrEq (attname vf) (PInt v))) k
                 (map (\<lambda>(f, m, x). (f, m, Const (if is_version f then PInt (v + 1) else x))) values)
                 uf forced)
        (after_write (setattr self (attname vf) (PInt (v + 1))) base_qs k)"
proof -
  let ?cv = "value_from_object vf self"
  let ?self1 = "setattr self (attname vf) (PInt (v + 1))"
  let ?vs = "map (\<lambda>(f, m, x). (f, m, Const (if is_version f then PInt (v + 1) else x))) values"
  from pr have vf: "get_version_field self = Inr vf" and tbl: "fmodel vf = qs_model base_qs"
    and ndef: "attname vf \<notin> inst_deferred self" and cv: "?cv = PInt v"
    and act: "truthy (active sc (Some InstObj))"
    and st: "\<exists>m. (vf, m, PInt v) \<in> set values"
    and ok: "\<forall>(f, m, x) \<in> set values. is_version f \<longrightarrow> x = PInt v"
    by (simp_all add: presents_def)
  have isv: "is_version vf"
    using vf first_version_field_in by (auto simp: get_version_field_def)
  have staged: "\<exists>(f, m, x) \<in> set values. is_version f"
    using st isv by auto
  have ok': "?cv = PNone \<or> (\<forall>(f, m, x) \<in> set values. is_version f \<longrightarrow> x = ?cv)"
    using ok cv by auto
  have e: "fst (rewrite_values vf ?cv values self) = None"
    by (rule rewrite_values_ok [OF ok'])
  have s: "snd (snd (rewrite_values vf ?cv values self)) = ?self1"
    using rewrite_values_self_client [OF ok cv, of vf self] staged by simp
  have w: "fst (snd (rewrite_values vf ?cv values self)) = ?vs"
    using rewrite_values_written [OF ok', of vf self] ok by (auto simp: case_prod_beta)
  have rv: "rewrite_values vf ?cv values self = (None, ?vs, ?self1)"
    using e w s by (cases "rewrite_values vf ?cv values self") simp
  have ne: "?vs \<noteq> []" using staged by auto
  have vq: "version_qs sc vf (PInt v) base_qs = qs_filter base_qs (AttrEq (attname vf) (PInt v))"
    using act by (simp add: version_qs_def)
  have awf: "after_write ?self1 base_qs k
      = (\<lambda>updated.
          if \<not> updated then
            Exists (qs_filter base_qs (PkEq k)) (\<lambda>found.
              if found then
                bind_io (ConcurrentUpdate_init ?self1) (\<lambda>e. Return (Inl e, raised_model e ?self1))
              else Return (Inr updated, ?self1))
          else Return (Inr updated, ?self1))"
    by (simp add: fun_eq_iff after_write_def)
  show ?thesis
    unfolding awf using vf tbl ndef rv ne cv vq by (simp add: do_update_def Let_def)
qed

lemma presents_written:
  assumes pr: "presents sc self base_qs k values vf v"
  shows "write_row old
           (map (\<lambda>(f, m, x). (f, m, Const (if is_version f then PInt (v + 1) else x))) values)
           cols (attname vf) = PInt (v + 1)"
proof -
  let ?vs = "map (\<lambda>(f, m, x). (f, m, Const (if is_version f then PInt (v + 1) else x))) values"
  from pr have st: "\<exists>m. (vf, m, PInt v) \<in> set values"
    and only: "\<forall>(f, m, x) \<in> set values. attname f = attname vf \<longrightarrow> is_version f"
    by (simp_all add: presents_def)
  have a: "\<forall>(f, m, e) \<in> set ?vs. attname f = attname vf \<longrightarrow> eval_expr old e = PInt (v + 1)"
    using only by auto
  have b: "\<exists>(f, m, e) \<in> set ?vs. attname f = attname vf"
    using st by (force simp: image_iff)
  from write_row_column [OF a, of cols] b show ?thesis by simp
qed

lemma presents_races:
  assumes pr: "presents sc self base_qs k values vf v"
    and rd: "set (loaded_fields self) \<subseteq> set fs"
  shows "races (Collect (holds_version (qs_model base_qs) k (attname vf) (PInt v) fs))
           (Collect (holds_version (qs_model base_qs) k (attname vf) (PInt (v + 1)) fs))
           succeeded (conflicted (attname vf) (PInt (v + 1)))
           (do_update sc self base_qs k values uf forced)"
proof -
  let ?self1 = "setattr self (attname vf) (PInt (v + 1))"
  let ?vs = "map (\<lambda>(f, m, x). (f, m, Const (if is_version f then PInt (v + 1) else x))) values"
  let ?q0 = "qs_filter base_qs (AttrEq (attname vf) (PInt v))"
  let ?AW = "after_write ?self1 base_qs k"
  let ?S1 = "Collect (holds_version (qs_model base_qs) k (attname vf) (PInt (v + 1)) fs)"
  let ?L = "conflicted (attname vf) (PInt (v + 1))"
  from pr have vf: "get_version_field self = Inr vf" and tbl: "fmodel vf = qs_model base_qs"
    and base: "qs_where base_qs = []"
    and ndef: "attname vf \<notin> inst_deferred self" and pk: "inst_pk self = k"
    and names: "distinct (map attname (inst_fields self))"
    and st: "\<exists>m. (vf, m, PInt v) \<in> set values"
    by (simp_all add: presents_def)
  have lf: "loaded_fields ?self1 = loaded_fields self"
    by (simp add: loaded_fields_def)
  have vfin: "vf \<in> set (loaded_fields ?self1)"
    using vf ndef first_version_field_in [of "inst_fields self" vf]
    by (simp add: lf loaded_fields_def get_version_field_def)
  have names1: "distinct (map attname (loaded_fields ?self1))"
    using names by (simp add: lf loaded_fields_def distinct_map_filter)
  have rd1: "set (loaded_fields ?self1) \<subseteq> set fs" using rd by (simp add: lf)
  have pk1: "inst_pk ?self1 = k" using pk by simp
  have wr: "write_row old ?vs cols (attname vf) = PInt (v + 1)" for old cols
    by (rule presents_written [OF pr])
  have ne: "?vs \<noteq> []" using st by auto
  have aw: "settles ?S1 ?L (?AW False)"
    by (rule after_write_settles [OF tbl base vfin names1 rd1 pk1])
  have plain: "races (Collect (holds_version (qs_model base_qs) k (attname vf) (PInt v) fs)) ?S1
           succeeded ?L (Update (qs_filter ?q0 (PkEq k)) ?vs (\<lambda>n. ?AW (0 < n)))"
  proof (rule update_races [where cont = "\<lambda>n. ?AW (0 < n)", OF tbl base vfin names1 rd1 pk1 wr])
    show "?AW (0 < n) = ?AW True" if "0 < n" for n :: nat using that by simp
    show "settles ?S1 ?L (?AW (0 < (0::nat)))" using aw by simp
  qed
  have sos: "races (Collect (holds_version (qs_model base_qs) k (attname vf) (PInt v) fs)) ?S1
           succeeded ?L
           (Exists (qs_filter ?q0 (PkEq k)) (\<lambda>found.
              if found then
                Update (qs_filter ?q0 (PkEq k)) ?vs
                  (\<lambda>n. if 0 < n then ?AW True else Exists (qs_filter ?q0 (PkEq k)) ?AW)
              else ?AW False))"
    by (rule select_on_save_races [OF tbl base vfin names1 rd1 pk1 wr])
  show ?thesis
    unfolding do_update_program [OF pr] Model_do_update_then [OF ne]
    using plain sos by (simp only: if_split) blast
qed

lemma conflicted_not_succeeded: "conflicted a x r \<Longrightarrow> \<not> succeeded r"
  by (auto simp: conflicted_def succeeded_def)

text \<open>
  C4 (as the code has it). Two update attempts on the same record run against one
  store, each statement atomic, their statements interleaved in any order. The store
  holds the record at version \<open>v\<close>; both attempts present client version \<open>v\<close> with
  optimistic locking active, and both stage the version in their write-value lists.
  Then, whenever both have finished, the store holds version \<open>v + 1\<close>, exactly one
  attempt has returned \<open>True\<close>, and the other has raised \<open>ConcurrentUpdate\<close> with a
  refreshed instance whose version is \<open>v + 1\<close>. Both finish under every schedule that
  gives each of them five turns.
\<close>

theorem one_winner:
  assumes pa: "presents scA selfA base_qs pk_val valuesA vf v"
    and pb: "presents scB selfB base_qs pk_val valuesB vf v"
    and db: "holds_version (qs_model base_qs) pk_val (attname vf) (PInt v)
               (loaded_fields selfA @ loaded_fields selfB) db"
  shows "(\<forall>ra rb db'.
            interleave sched (do_update scA selfA base_qs pk_val valuesA ufA forcedA)
              (do_update scB selfB base_qs pk_val valuesB ufB forcedB) db
              = (Return ra, Return rb, db') \<longrightarrow>
            db_value (tables db') vf pk_val = Some (PInt (v + 1))
            \<and> ((succeeded ra \<and> conflicted (attname vf) (PInt (v + 1)) rb)
                \<or> (conflicted (attname vf) (PInt (v + 1)) ra \<and> succeeded rb))
            \<and> \<not> (succeeded ra \<and> succeeded rb))
     \<and> (5 \<le> count_list sched True \<and> 5 \<le> count_list sched False \<longrightarrow>
          (\<exists>ra rb db'.
             interleave sched (do_update scA selfA base_qs pk_val valuesA ufA forcedA)
               (do_update scB selfB base_qs pk_val valuesB ufB forcedB) db
               = (Return ra, Return rb, db')))"
proof -
  let ?fs = "loaded_fields selfA @ loaded_fields selfB"
  let ?S0 = "Collect (holds_version (qs_model base_qs) pk_val (attname vf) (PInt v) ?fs)"
  let ?S1 = "Collect (holds_version (qs_model base_qs) pk_val (attname vf) (PInt (v + 1)) ?fs)"
  let ?L = "conflicted (attname vf) (PInt (v + 1))"
  let ?A = "do_update scA selfA base_qs pk_val valuesA ufA forcedA"
  let ?B = "do_update scB selfB base_qs pk_val valuesB ufB forcedB"
  have ra: "races ?S0 ?S1 succeeded ?L ?A"
    by (rule presents_races [OF pa]) simp
  have rb: "races ?S0 ?S1 succeeded ?L ?B"
    by (rule presents_races [OF pb]) simp
  have d: "db \<in> ?S0" using db by simp
  from pa have tbl: "fmodel vf = qs_model base_qs" by (simp add: presents_def)
  have out: "db_value (tables db') vf pk_val = Some (PInt (v + 1))
            \<and> ((succeeded a \<and> ?L b) \<or> (?L a \<and> succeeded b))
            \<and> \<not> (succeeded a \<and> succeeded b)"
    if fin: "interleave sched ?A ?B db = (Return a, Return b, db')" for a b db'
  proof -
    from race_outcome [OF ra rb d fin]
    have s1: "db' \<in> ?S1" and w: "(succeeded a \<and> ?L b) \<or> (?L a \<and> succeeded b)"
      by blast+
    from s1 have "holds_version (fmodel vf) pk_val (attname vf) (PInt (v + 1)) ?fs db'"
      by (simp add: tbl)
    then have "db_value (tables db') vf pk_val = Some (PInt (v + 1))"
      by (rule db_value_held)
    moreover have "\<not> (succeeded a \<and> succeeded b)"
      using w conflicted_not_succeeded by blast
    ultimately show ?thesis using w by blast
  qed
  have fin: "\<exists>ra rb db'. interleave sched ?A ?B db = (Return ra, Return rb, db')"
    if "5 \<le> count_list sched True \<and> 5 \<le> count_list sched False"
    using interleave_finishes [OF within_do_update within_do_update, of sched] that by blast
  from out fin show ?thesis by blast
qed

theorem one_winner_witness:
  "\<exists>ra rb db'.
     interleave [True, False, True, False, True, False, True, False, True, False]
       (do_update ambient_scope (article (PInt 7) (PInt 3)) articles 1
          [(title_f, None, PInt 7), (version_f, None, PInt 3)] None False)
       (do_update ambient_scope (article (PInt 8) (PInt 3)) articles 1
          [(title_f, None, PInt 8), (version_f, None, PInt 3)] None False)
       (store [article_row 1 (PInt 5) (PInt 3)]) = (Return ra, Return rb, db')
     \<and> db_value (tables db') version_f 1 = Some (PInt 4)
     \<and> ((succeeded ra \<and> conflicted ''version'' (PInt 4) rb)
         \<or> (conflicted ''version'' (PInt 4) ra \<and> succeeded rb))"
proof -
  have p: "presents ambient_scope (article (PInt t) (PInt 3)) articles 1
             [(title_f, None, PInt t), (version_f, None, PInt 3)] version_f 3" for t
    by (simp add: presents_def example_defs model_defs Let_def)
  have h: "holds_version (qs_model articles) 1 (attname version_f) (PInt 3)
             (loaded_fields (article (PInt 7) (PInt 3)) @ loaded_fields (article (PInt 8) (PInt 3)))
             (store [article_row 1 (PInt 5) (PInt 3)])"
    by (simp add: holds_version_def example_defs model_defs)
  have c: "5 \<le> count_list [True, False, True, False, True, False, True, False, True, False] True
         \<and> 5 \<le> count_list [True, False, True, False, True, False, True, False, True, False] False"
    by simp
  have an: "attname version_f = ''version''" by (simp add: example_defs)
  note w = one_winner [OF p [of 7] p [of 8] h,
      of "[True, False, True, False, True, False, True, False, True, False]" None False None False]
  from w [THEN conjunct2] c obtain ra rb db' where
    fin: "interleave [True, False, True, False, True, False, True, False, True, False]
       (do_update ambient_scope (article (PInt 7) (PInt 3)) articles 1
          [(title_f, None, PInt 7), (version_f, None, PInt 3)] None False)
       (do_update ambient_scope (article (PInt 8) (PInt 3)) articles 1
          [(title_f, None, PInt 8), (version_f, None, PInt 3)] None False)
       (store [article_row 1 (PInt 5) (PInt 3)]) = (Return ra, Return rb, db')"
    by blast
  from w [THEN conjunct1] fin
  have "db_value (tables db') version_f 1 = Some (PInt (3 + 1))
     \<and> ((succeeded ra \<and> conflicted (attname version_f) (PInt (3 + 1)) rb)
         \<or> (conflicted (attname version_f) (PInt (3 + 1)) ra \<and> succeeded rb))"
    by blast
  then have "db_value (tables db') version_f 1 = Some (PInt 4)
     \<and> ((succeeded ra \<and> conflicted ''version'' (PInt 4) rb)
         \<or> (conflicted ''version'' (PInt 4) ra \<and> succeeded rb))"
    by (simp add: an)
  with fin show ?thesis by blast
qed

text \<open>
  The claim as written fails: two attempts that present client version \<open>3\<close> with
  optimistic locking active but leave the version out of their write-value lists (saves
  with \<open>update_fields\<close> naming only the title) both return \<open>True\<close>, and the stored
  version stays \<open>3\<close>.
\<close>

theorem both_succeed_when_version_not_staged:
  "fst (interleave [True, False]
       (do_update ambient_scope (article (PInt 7) (PInt 3)) articles 1
          [(title_f, None, PInt 7)] (Some [''title'']) False)
       (do_update ambient_scope (article (PInt 8) (PInt 3)) articles 1
          [(title_f, None, PInt 8)] (Some [''title'']) False)
       (store [article_row 1 (PInt 5) (PInt 3)]))
     = Return (Inr True, article (PInt 7) (PInt 3))
   \<and> fst (snd (interleave [True, False]
       (do_update ambient_scope (article (PInt 7) (PInt 3)) articles 1
          [(title_f, None, PInt 7)] (Some [''title'']) False)
       (do_update ambient_scope (article (PInt 8) (PInt 3)) articles 1
          [(title_f, None, PInt 8)] (Some [''title'']) False)
       (store [article_row 1 (PInt 5) (PInt 3)])))
     = Return (Inr True, article (PInt 8) (PInt 3))
   \<and> map (\<lambda>r. r_cols r ''version'')
       (tables (snd (snd (interleave [True, False]
          (do_update ambient_scope (article (PInt 7) (PInt 3)) articles 1
             [(title_f, None, PInt 7)] (Some [''title'']) False)
          (do_update ambient_scope (article (PInt 8) (PInt 3)) articles 1
             [(title_f, None, PInt 8)] (Some [''title'']) False)
          (store [article_row 1 (PInt 5) (PInt 3)])))) ''Article'')
     = [PInt 3]"
  by (simp add: run_defs example_defs model_defs)

end
